theory Spec2Isabelle
  imports Complex_Main "HOL-Library.Word"
begin

section \<open>The buffer assigner of the memory planner\<close>

text \<open>
  A shallow embedding of \<^verbatim>\<open>buffer_assigner_t\<close> and of
  \<^verbatim>\<open>memory_planner_t::get_memory_info\<close> from
  \<^verbatim>\<open>src/backend/dnnl/passes/memory_planning.hpp\<close>.

  \<^item> \<^verbatim>\<open>size_t\<close> is a 64-bit word: \<open>*\<close> wraps, \<open>div\<close> and the order are unsigned.
  \<^item> \<^verbatim>\<open>std::vector<std::unique_ptr<buffer_info_t>> data_\<close> is the list of the
    \<^verbatim>\<open>buffer_info_t\<close> objects it owns; a \<^verbatim>\<open>buffer_info_t *\<close> is the position of the
    object in that list.
  \<^item> \<^verbatim>\<open>std::multimap<size_t, buffer_info_t *> free_\<close> is the list of its entries in
    iteration order (ascending keys, equal keys in insertion order); an iterator is
    a position in that list, \<^verbatim>\<open>free_.end()\<close> being its length.
  \<^item> A field keeps its name without the trailing underscore (\<^verbatim>\<open>data_\<close> is \<open>data\<close>);
    \<^verbatim>\<open>id_\<close> is \<open>slot_id\<close>. The parameters \<^verbatim>\<open>size\<close> and \<^verbatim>\<open>id\<close> are \<open>sz\<close> and \<open>bid\<close>.
  \<^item> A failed \<^verbatim>\<open>assertm\<close> and undefined behaviour (reading through the past-the-end
    iterator, stepping back from the first one, reading through a pointer to no
    object) are error values.
\<close>

type_synonym size_t = "64 word"

datatype error = Assertion_failed string | Undefined_behaviour

record buffer_info_t =
  slot_id :: size_t
  max_bytes :: size_t

record buffer_assigner_t =
  match_range :: size_t
  free :: "(size_t \<times> nat) list"
  data :: "buffer_info_t list"

text \<open>\<^verbatim>\<open>static_cast<size_t>(-1)\<close>, the id that \<^verbatim>\<open>request(0)\<close> returns.\<close>

definition no_buffer :: size_t where
  "no_buffer = - 1"

text \<open>The constructor \<^verbatim>\<open>buffer_assigner_t(const size_t match_range)\<close>.\<close>

definition new_buffer_assigner :: "size_t \<Rightarrow> buffer_assigner_t" where
  "new_buffer_assigner r = \<lparr>match_range = r, free = [], data = []\<rparr>"

subsection \<open>The multimap operations that the assigner uses\<close>

text \<open>\<^verbatim>\<open>lower_bound(k)\<close>: the first entry whose key is not less than \<open>k\<close>.\<close>

definition lower_bound :: "(size_t \<times> nat) list \<Rightarrow> size_t \<Rightarrow> nat" where
  "lower_bound m k = length (takeWhile (\<lambda>x. fst x < k) m)"

text \<open>\<^verbatim>\<open>upper_bound(k)\<close>: the first entry whose key is greater than \<open>k\<close>.\<close>

definition upper_bound :: "(size_t \<times> nat) list \<Rightarrow> size_t \<Rightarrow> nat" where
  "upper_bound m k = length (takeWhile (\<lambda>x. fst x \<le> k) m)"

text \<open>\<^verbatim>\<open>insert({k, v})\<close>: after the entries whose key is not greater than \<open>k\<close>.\<close>

definition multimap_insert :: "size_t \<Rightarrow> nat \<Rightarrow> (size_t \<times> nat) list \<Rightarrow> (size_t \<times> nat) list" where
  "multimap_insert k v m = takeWhile (\<lambda>x. fst x \<le> k) m @ (k, v) # dropWhile (\<lambda>x. fst x \<le> k) m"

text \<open>\<^verbatim>\<open>erase(it)\<close> for an iterator \<open>it\<close> that points to an entry.\<close>

definition multimap_erase :: "nat \<Rightarrow> (size_t \<times> nat) list \<Rightarrow> (size_t \<times> nat) list" where
  "multimap_erase it m = take it m @ drop (Suc it) m"

subsection \<open>The operations of the assigner\<close>

text \<open>
  \<^verbatim>\<open>
  size_t alloc(size_t size) {
      size_t id = static_cast<size_t>(data_.size());
      std::unique_ptr<buffer_info_t> ptr(new buffer_info_t(id, size));
      data_.emplace_back(std::move(ptr));
      return id;
  }
  \<close>
\<close>

definition alloc :: "buffer_assigner_t \<Rightarrow> size_t \<Rightarrow> size_t \<times> buffer_assigner_t" where
  "alloc a sz =
     (let bid = (of_nat (length (data a)) :: size_t)
      in (bid, a\<lparr>data := data a @ [\<lparr>slot_id = bid, max_bytes = sz\<rparr>]\<rparr>))"

text \<open>
  The body that both loops of \<^verbatim>\<open>request\<close> share, at the iterator \<open>it\<close>:
  \<^verbatim>\<open>
  buffer_info_t *e = it->second;
  e->max_bytes_ = std::max(size, e->max_bytes_);
  free_.erase(it);
  return e->id_;
  \<close>
\<close>

definition reuse_at :: "buffer_assigner_t \<Rightarrow> nat \<Rightarrow> size_t \<Rightarrow> error + size_t \<times> buffer_assigner_t" where
  "reuse_at a it sz =
     (if length (free a) \<le> it then Inl Undefined_behaviour
      else let e = snd (free a ! it) in
        if length (data a) \<le> e then Inl Undefined_behaviour
        else let b = data a ! e in
          Inr (slot_id b,
               a\<lparr>free := multimap_erase it (free a),
                 data := (data a)[e := b\<lparr>max_bytes := max sz (max_bytes b)\<rparr>]\<rparr>))"

text \<open>
  \<^verbatim>\<open>
  size_t request(size_t size) {
      if (size == 0) return -1;
      if (match_range_ == 0) return this->alloc(size);
      auto begin = free_.lower_bound(size / match_range_);
      auto mid = free_.lower_bound(size);
      auto end = free_.upper_bound(size * match_range_);
      for (auto it = mid; it != end; ++it) { ... return e->id_; }
      for (auto it = mid; it != begin;) { --it; ... return e->id_; }
      return this->alloc(size);
  }
  \<close>
  Each loop body returns, so each loop runs its body at most once.
\<close>

definition request :: "buffer_assigner_t \<Rightarrow> size_t \<Rightarrow> error + size_t \<times> buffer_assigner_t" where
  "request a sz =
     (if sz = 0 then Inr (no_buffer, a)
      else if match_range a = 0 then Inr (alloc a sz)
      else
        let it_begin = lower_bound (free a) (sz div match_range a);
            it_mid = lower_bound (free a) sz;
            it_end = upper_bound (free a) (sz * match_range a)
        in if it_mid \<noteq> it_end then reuse_at a it_mid sz
           else if it_mid \<noteq> it_begin then
             (if it_mid = 0 then Inl Undefined_behaviour else reuse_at a (it_mid - 1) sz)
           else Inr (alloc a sz))"

text \<open>
  Modelled from the spec: the macro \<^verbatim>\<open>assertm(cond, msg)\<close>, whose definition is not
  in the source files at hand. The spec calls an unknown slot id passed to
  \<^verbatim>\<open>release\<close> or \<^verbatim>\<open>query_size\<close> a fatal condition that is signalled immediately,
  so a false condition ends the call with the message.
\<close>

definition assertm :: "bool \<Rightarrow> string \<Rightarrow> error + unit" where
  "assertm cond msg = (if cond then Inr () else Inl (Assertion_failed msg))"

text \<open>
  \<^verbatim>\<open>
  void release(size_t id) {
      assertm(id < data_.size() || id == static_cast<size_t>(-1), "invalid buffer id");
      if (id == static_cast<size_t>(-1)) return;
      buffer_info_t *e = data_[id].get();
      free_.insert({e->max_bytes_, e});
  }
  \<close>
\<close>

definition release :: "buffer_assigner_t \<Rightarrow> size_t \<Rightarrow> error + buffer_assigner_t" where
  "release a bid =
     (case assertm (unat bid < length (data a) \<or> bid = no_buffer) ''invalid buffer id'' of
        Inl err \<Rightarrow> Inl err
      | Inr _ \<Rightarrow>
          if bid = no_buffer then Inr a
          else let e = unat bid
               in Inr (a\<lparr>free := multimap_insert (max_bytes (data a ! e)) e (free a)\<rparr>))"

text \<open>
  \<^verbatim>\<open>
  size_t query_size(size_t id) const {
      assertm(id < data_.size() || id == static_cast<size_t>(-1), "invalid buffer id");
      if (id == static_cast<size_t>(-1)) return 0;
      return data_[id]->max_bytes_;
  }
  \<close>
\<close>

definition query_size :: "buffer_assigner_t \<Rightarrow> size_t \<Rightarrow> error + size_t" where
  "query_size a bid =
     (case assertm (unat bid < length (data a) \<or> bid = no_buffer) ''invalid buffer id'' of
        Inl err \<Rightarrow> Inl err
      | Inr _ \<Rightarrow>
          if bid = no_buffer then Inr 0
          else Inr (max_bytes (data a ! unat bid)))"

text \<open>\<^verbatim>\<open>void clear() { free_.clear(); data_.clear(); }\<close>\<close>

definition clear :: "buffer_assigner_t \<Rightarrow> buffer_assigner_t" where
  "clear a = a\<lparr>free := [], data := []\<rparr>"

section \<open>The diagnostic string of the memory planner\<close>

text \<open>
  \<^verbatim>\<open>
  enum buffer_kind_t {
      external_input = 0, external_output, internal_temporary, internal_persistent,
  };
  class assign_info_t { buffer_kind_t kind_; size_t index_; };
  \<close>
\<close>

datatype buffer_kind_t =
  external_input | external_output | internal_temporary | internal_persistent

record assign_info_t =
  kind :: buffer_kind_t
  index :: size_t

text \<open>A \<^verbatim>\<open>value_t *\<close> is an address.\<close>

type_synonym value_ptr = nat

text \<open>
  The members of \<^verbatim>\<open>memory_planner_t\<close> whose types the header defines or that are
  standard containers of them.
\<close>

record memory_planner_t =
  alias_map :: "value_ptr \<rightharpoonup> value_ptr"
  reverse_alias_map :: "value_ptr \<rightharpoonup> value_ptr"
  buffer_assignments :: "value_ptr \<rightharpoonup> assign_info_t"
  temporary_buffer_ref_count :: "size_t \<rightharpoonup> size_t"
  persistent_buffer_assigner :: buffer_assigner_t
  temporary_buffer_assigner :: buffer_assigner_t
  enable_memory_sharing :: bool

text \<open>
  \<^verbatim>\<open>std::to_string\<close> of an unsigned value: its decimal digits, the most significant
  first.
\<close>

definition digit_char :: "nat \<Rightarrow> char" where
  "digit_char d = char_of (48 + d)"

fun to_string :: "nat \<Rightarrow> string" where
  "to_string n =
     (if n < 10 then [digit_char n] else to_string (n div 10) @ [digit_char (n mod 10)])"

declare to_string.simps [simp del]

text \<open>
  \<^verbatim>\<open>
  std::string get_memory_info(const value_t *val) const {
      std::string str;
      auto pos = buffer_assignments_.find(val);
      if (pos == buffer_assignments_.end()) return str;
      assign_info_t info = pos->second;
      if (info.kind_ == internal_persistent) { str += "persistent_"; }
      else if (info.kind_ == internal_temporary) { str += "temporary_"; }
      else if (info.kind_ == external_input) { str += "external_in_"; }
      else if (info.kind_ == external_output) { str += "external_out_"; }
      else { }
      str += std::to_string(info.index_);
      return str;
  }
  \<close>
  The planner is returned with the string, so that what the call does to it can be
  stated.
\<close>

definition get_memory_info :: "memory_planner_t \<Rightarrow> value_ptr \<Rightarrow> string \<times> memory_planner_t" where
  "get_memory_info p val =
     (case buffer_assignments p val of
        None \<Rightarrow> ('''', p)
      | Some info \<Rightarrow>
          let str =
            (if kind info = internal_persistent then ''persistent_''
             else if kind info = internal_temporary then ''temporary_''
             else if kind info = external_input then ''external_in_''
             else if kind info = external_output then ''external_out_''
             else '''')
          in (str @ to_string (unat (index info)), p))"

section \<open>Sequences of calls\<close>

text \<open>A client of the assigner issues \<^verbatim>\<open>request\<close> and \<^verbatim>\<open>release\<close> calls, one after another.\<close>

datatype call = Request size_t | Release size_t

fun run_call :: "buffer_assigner_t \<Rightarrow> call \<Rightarrow> error + buffer_assigner_t" where
  "run_call a (Request sz) = (case request a sz of Inl err \<Rightarrow> Inl err | Inr (bid, a') \<Rightarrow> Inr a')"
| "run_call a (Release bid) = release a bid"

fun run_calls :: "buffer_assigner_t \<Rightarrow> call list \<Rightarrow> error + buffer_assigner_t" where
  "run_calls a [] = Inr a"
| "run_calls a (c # cs) = (case run_call a c of Inl err \<Rightarrow> Inl err | Inr a' \<Rightarrow> run_calls a' cs)"

text \<open>
  The assigner together with the bookkeeping of its client: the ids that a request
  returned and that were not released since (\<open>live\<close>), the ids that were released
  and not returned again since (\<open>released\<close>), and all ids ever returned
  (\<open>returned\<close>). The "no buffer" id is not a slot and is not recorded.
\<close>

record usage =
  assigner :: buffer_assigner_t
  live :: "size_t set"
  released :: "size_t set"
  returned :: "size_t set"

definition start :: "size_t \<Rightarrow> usage" where
  "start r = \<lparr>assigner = new_buffer_assigner r, live = {}, released = {}, returned = {}\<rparr>"

text \<open>
  One call of a client that releases only ids it holds (or the "no buffer" id).
  \<open>None\<close> when the call fails or when the client releases an id that it does not
  hold.
\<close>

fun track :: "usage \<Rightarrow> call \<Rightarrow> usage option" where
  "track u (Request sz) =
     (case request (assigner u) sz of
        Inl _ \<Rightarrow> None
      | Inr (bid, a') \<Rightarrow>
          Some (if bid = no_buffer then u\<lparr>assigner := a'\<rparr>
                else u\<lparr>assigner := a', live := insert bid (live u),
                       released := released u - {bid}, returned := insert bid (returned u)\<rparr>))"
| "track u (Release bid) =
     (if bid = no_buffer \<or> bid \<in> live u then
        (case release (assigner u) bid of
           Inl _ \<Rightarrow> None
         | Inr a' \<Rightarrow>
             Some (if bid = no_buffer then u\<lparr>assigner := a'\<rparr>
                   else u\<lparr>assigner := a', live := live u - {bid},
                          released := insert bid (released u)\<rparr>))
      else None)"

fun track_calls :: "usage \<Rightarrow> call list \<Rightarrow> usage option" where
  "track_calls u [] = Some u"
| "track_calls u (c # cs) = (case track u c of None \<Rightarrow> None | Some u' \<Rightarrow> track_calls u' cs)"

section \<open>The search of a request, in the words of the specification\<close>

text \<open>
  The specification of \<^verbatim>\<open>request\<close>, to be compared with the definition taken from the
  code. An entry \<open>x\<close> of the free list stands for the released slot that it points to;
  \<open>recorded a x\<close> is the maximum size recorded for that slot.
\<close>

definition recorded :: "buffer_assigner_t \<Rightarrow> size_t \<times> nat \<Rightarrow> size_t" where
  "recorded a x = max_bytes (data a ! snd x)"

text \<open>
  The window \<open>[size / R, size * R]\<close> of the specification, for the match range \<open>R\<close>:
  quotient and product are those of the real numbers (\<open>[6.25, 1600]\<close> for a request
  of 100 with \<open>R = 16\<close>).
\<close>

definition in_window :: "buffer_assigner_t \<Rightarrow> size_t \<Rightarrow> size_t \<times> nat \<Rightarrow> bool" where
  "in_window a sz x \<longleftrightarrow>
     real (unat sz) / real (unat (match_range a)) \<le> real (unat (recorded a x)) \<and>
     real (unat (recorded a x)) \<le> real (unat sz) * real (unat (match_range a))"

text \<open>
  The same window with the quotient rounded down to an integer, \<open>[\<lfloor>size / R\<rfloor>, size * R]\<close>
  (\<open>[6, 1600]\<close> for a request of 100 with \<open>R = 16\<close>). Quotient and product are those
  of the natural numbers: nothing wraps.
\<close>

definition in_window_floor :: "buffer_assigner_t \<Rightarrow> size_t \<Rightarrow> size_t \<times> nat \<Rightarrow> bool" where
  "in_window_floor a sz x \<longleftrightarrow>
     unat sz div unat (match_range a) \<le> unat (recorded a x) \<and>
     unat (recorded a x) \<le> unat sz * unat (match_range a)"

text \<open>
  A smallest slot of the window \<open>W\<close> among those that are not smaller than \<open>sz\<close>.
\<close>

definition best_above ::
  "(size_t \<times> nat \<Rightarrow> bool) \<Rightarrow> buffer_assigner_t \<Rightarrow> size_t \<Rightarrow> size_t \<times> nat \<Rightarrow> bool" where
  "best_above W a sz x \<longleftrightarrow>
     W x \<and> sz \<le> recorded a x \<and>
     (\<forall>y \<in> set (free a). W y \<and> sz \<le> recorded a y \<longrightarrow> recorded a x \<le> recorded a y)"

text \<open>A largest slot of the window \<open>W\<close> among those that are smaller than \<open>sz\<close>.\<close>

definition best_below ::
  "(size_t \<times> nat \<Rightarrow> bool) \<Rightarrow> buffer_assigner_t \<Rightarrow> size_t \<Rightarrow> size_t \<times> nat \<Rightarrow> bool" where
  "best_below W a sz x \<longleftrightarrow>
     W x \<and> recorded a x < sz \<and>
     (\<forall>y \<in> set (free a). W y \<and> recorded a y < sz \<longrightarrow> recorded a y \<le> recorded a x)"

text \<open>
  Reusing the released slot of the entry \<open>x\<close>: the entry leaves the free list, the
  recorded size of the slot becomes the maximum of itself and \<open>sz\<close>, the id of the
  slot is returned.
\<close>

definition take_slot :: "buffer_assigner_t \<Rightarrow> size_t \<times> nat \<Rightarrow> size_t \<Rightarrow> size_t \<times> buffer_assigner_t" where
  "take_slot a x sz =
     (slot_id (data a ! snd x),
      a\<lparr>free := remove1 x (free a),
        data := (data a)[snd x := (data a ! snd x)\<lparr>max_bytes := max sz (recorded a x)\<rparr>]\<rparr>)"

text \<open>
  The search with the window \<open>W\<close>: with match range 0 a fresh slot; otherwise the
  first best slot from above in ascending order, else the last best slot from below,
  else a fresh slot.
\<close>

definition window_search ::
  "(size_t \<times> nat \<Rightarrow> bool) \<Rightarrow> buffer_assigner_t \<Rightarrow> size_t \<Rightarrow> size_t \<times> buffer_assigner_t" where
  "window_search W a sz =
     (if match_range a = 0 then alloc a sz
      else case find (best_above W a sz) (free a) of
        Some x \<Rightarrow> take_slot a x sz
      | None \<Rightarrow>
          (case find (best_below W a sz) (rev (free a)) of
             Some x \<Rightarrow> take_slot a x sz
           | None \<Rightarrow> alloc a sz))"

text \<open>The request of the specification: the search with the window \<open>[size / R, size * R]\<close>.\<close>

definition request_spec :: "buffer_assigner_t \<Rightarrow> size_t \<Rightarrow> size_t \<times> buffer_assigner_t" where
  "request_spec a sz = window_search (in_window a sz) a sz"

text \<open>The same request with the quotient rounded down.\<close>

definition request_spec_floor :: "buffer_assigner_t \<Rightarrow> size_t \<Rightarrow> size_t \<times> buffer_assigner_t" where
  "request_spec_floor a sz = window_search (in_window_floor a sz) a sz"

section \<open>Invariants\<close>

text \<open>Every slot carries its own position as its id.\<close>

definition ids_ok :: "buffer_assigner_t \<Rightarrow> bool" where
  "ids_ok a \<longleftrightarrow> (\<forall>e < length (data a). slot_id (data a ! e) = of_nat e)"

text \<open>
  The free list is in ascending key order, no slot is in it twice, and every entry
  points to an allocated slot and is keyed by the recorded size of that slot.
\<close>

definition consistent :: "buffer_assigner_t \<Rightarrow> bool" where
  "consistent a \<longleftrightarrow>
     sorted (map fst (free a)) \<and> distinct (map snd (free a)) \<and>
     (\<forall>x \<in> set (free a). snd x < length (data a) \<and> fst x = max_bytes (data a ! snd x)) \<and>
     ids_ok a"

text \<open>The bookkeeping of the client agrees with the assigner.\<close>

definition tracked :: "usage \<Rightarrow> bool" where
  "tracked u \<longleftrightarrow>
     consistent (assigner u) \<and>
     released u = (\<lambda>x. of_nat (snd x)) ` set (free (assigner u)) \<and>
     live u \<inter> released u = {} \<and>
     returned u = live u \<union> released u \<and>
     (\<forall>i \<in> returned u. unat i < length (data (assigner u))) \<and>
     no_buffer \<notin> returned u"

section \<open>Lemmas\<close>

subsection \<open>Sorted lists of entries\<close>

lemma takeWhile_less_sorted:
  "sorted (map fst m) \<Longrightarrow> \<forall>x \<in> set (dropWhile (\<lambda>x. fst x < (k::size_t)) m). k \<le> fst x"
  by (induction m) (auto)

lemma takeWhile_le_sorted:
  "sorted (map fst m) \<Longrightarrow> \<forall>x \<in> set (dropWhile (\<lambda>x. fst x \<le> (k::size_t)) m). k < fst x"
  by (induction m) (auto)

lemma find_append_skip: "\<forall>t \<in> set xs. \<not> P t \<Longrightarrow> find P (xs @ ys) = find P ys"
  by (induction xs) auto

lemma find_none: "\<forall>t \<in> set xs. \<not> P t \<Longrightarrow> find P xs = None"
  by (induction xs) auto

lemma sorted_last_max:
  assumes "sorted (map fst T)" "t \<in> set T"
  shows "fst t \<le> fst (last T)"
proof -
  from assms(2) have ne: "T \<noteq> []" by auto
  then have "T = butlast T @ [last T]" by simp
  then have "sorted (map fst (butlast T @ [last T]))" using assms(1) by simp
  then have "\<forall>x \<in> set (butlast T). fst x \<le> fst (last T)"
    by (simp add: sorted_append)
  moreover have "t \<in> set (butlast T) \<or> t = last T"
    using assms(2) ne by (metis append_butlast_last_id in_set_conv_decomp_first insert_iff list.set(2) rotate1.simps(2) set_rotate1)
  ultimately show ?thesis by auto
qed

subsection \<open>The window of a request\<close>

lemma window_bounds:
  fixes sz r :: size_t
  assumes "r \<noteq> 0" "unat sz * unat r < 2 ^ 64"
  shows "sz div r \<le> sz" "sz \<le> sz * r"
proof -
  show "sz div r \<le> sz"
    by (simp add: word_le_nat_alt unat_div)
  have "unat (sz * r) = unat sz * unat r"
    using assms(2) by (simp add: unat_mult_lem [THEN iffD1])
  moreover have "1 \<le> unat r" using assms(1)
    by (simp add: unat_gt_0 Suc_le_eq)
  ultimately show "sz \<le> sz * r"
    by (simp add: word_le_nat_alt)
qed

subsection \<open>The code of request against its specification\<close>

lemma request_cases:
  fixes a :: buffer_assigner_t and sz :: size_t
  defines "T \<equiv> takeWhile (\<lambda>x. fst x < sz) (free a)"
      and "U \<equiv> dropWhile (\<lambda>x. fst x < sz) (free a)"
  assumes srt: "sorted (map fst (free a))"
      and nz: "sz \<noteq> 0" and r: "match_range a \<noteq> 0"
      and lo: "sz div match_range a \<le> sz" and hi: "sz \<le> sz * match_range a"
  shows "request a sz =
     (if U \<noteq> [] \<and> fst (hd U) \<le> sz * match_range a then reuse_at a (length T) sz
      else if T \<noteq> [] \<and> sz div match_range a \<le> fst (last T) then reuse_at a (length T - 1) sz
      else Inr (alloc a sz))"
proof -
  have m: "free a = T @ U" by (simp add: T_def U_def)
  have T_lt: "\<forall>t \<in> set T. fst t < sz"
    unfolding T_def by (auto dest: set_takeWhileD)
  have U_ge: "\<forall>u \<in> set U. sz \<le> fst u"
    unfolding U_def using srt by (rule takeWhile_less_sorted)
  have srtT: "sorted (map fst T)" using srt m by (simp add: sorted_append)
  have mid: "lower_bound (free a) sz = length T"
    by (simp add: lower_bound_def T_def)
  have "takeWhile (\<lambda>x. fst x \<le> sz * match_range a) (T @ U)
      = T @ takeWhile (\<lambda>x. fst x \<le> sz * match_range a) U"
    using T_lt hi by (intro takeWhile_append2) auto
  then have "end": "upper_bound (free a) (sz * match_range a)
      = length T + length (takeWhile (\<lambda>x. fst x \<le> sz * match_range a) U)"
    by (simp add: upper_bound_def m)
  have end_iff: "length T \<noteq> upper_bound (free a) (sz * match_range a)
      \<longleftrightarrow> U \<noteq> [] \<and> fst (hd U) \<le> sz * match_range a"
    by (simp add: "end" takeWhile_eq_Nil_iff)
  have U_lo: "takeWhile (\<lambda>x. fst x < sz div match_range a) U = []"
    using U_ge lo by (cases U) auto
  have "takeWhile (\<lambda>x. fst x < sz div match_range a) (T @ U)
      = takeWhile (\<lambda>x. fst x < sz div match_range a) T"
  proof (cases "\<forall>t \<in> set T. fst t < sz div match_range a")
    case True
    then have tw: "takeWhile (\<lambda>x. fst x < sz div match_range a) T = T"
      by simp
    from True show ?thesis
      by (simp only: takeWhile_append U_lo append_Nil2 tw if_cancel)
  next
    case False
    then obtain t where "t \<in> set T" "\<not> fst t < sz div match_range a"
      by auto
    then show ?thesis
      by (rule takeWhile_append1)
  qed
  then have "begin": "lower_bound (free a) (sz div match_range a)
      = length (takeWhile (\<lambda>x. fst x < sz div match_range a) T)"
    by (simp add: lower_bound_def m)
  have "length (takeWhile (\<lambda>x. fst x < sz div match_range a) T) = length T
      \<longleftrightarrow> takeWhile (\<lambda>x. fst x < sz div match_range a) T = T"
    by (metis takeWhile_eq_take take_all_iff order_refl)
  also have "\<dots> \<longleftrightarrow> (\<forall>t \<in> set T. fst t < sz div match_range a)"
    by simp
  also have "\<dots> \<longleftrightarrow> \<not> (T \<noteq> [] \<and> sz div match_range a \<le> fst (last T))"
  proof
    assume "\<forall>t \<in> set T. fst t < sz div match_range a"
    then have "T \<noteq> [] \<Longrightarrow> fst (last T) < sz div match_range a"
      using last_in_set by blast
    then show "\<not> (T \<noteq> [] \<and> sz div match_range a \<le> fst (last T))"
      by (auto simp: not_le)
  next
    assume *: "\<not> (T \<noteq> [] \<and> sz div match_range a \<le> fst (last T))"
    show "\<forall>t \<in> set T. fst t < sz div match_range a"
    proof
      fix t assume t: "t \<in> set T"
      then have "fst t \<le> fst (last T)" using srtT by (rule sorted_last_max [rotated])
      moreover have "fst (last T) < sz div match_range a" using * t by auto
      ultimately show "fst t < sz div match_range a" by simp
    qed
  qed
  finally have begin_iff: "length T \<noteq> lower_bound (free a) (sz div match_range a)
      \<longleftrightarrow> T \<noteq> [] \<and> sz div match_range a \<le> fst (last T)"
    by (auto simp: "begin")
  show ?thesis
    unfolding request_def Let_def mid using nz r end_iff begin_iff by auto
qed



lemma request_refines:
  fixes a :: buffer_assigner_t and sz :: size_t
  assumes c: "consistent a" and nz: "sz \<noteq> 0" and r: "match_range a \<noteq> 0"
      and nov: "unat sz * unat (match_range a) < 2 ^ 64"
  shows "request a sz = Inr (request_spec_floor a sz)"
proof -
  define T where "T = takeWhile (\<lambda>x. fst x < sz) (free a)"
  define U where "U = dropWhile (\<lambda>x. fst x < sz) (free a)"
  define lo where "lo = sz div match_range a"
  define hi where "hi = sz * match_range a"
  have lo: "lo \<le> sz" and hi: "sz \<le> hi"
    using window_bounds [OF r nov] by (simp_all add: lo_def hi_def)
  have srt: "sorted (map fst (free a))" and dst: "distinct (map snd (free a))"
    and ptr: "\<forall>x \<in> set (free a). snd x < length (data a)"
    and key: "\<forall>x \<in> set (free a). recorded a x = fst x"
    using c by (simp_all add: consistent_def recorded_def)
  have m: "free a = T @ U" by (simp add: T_def U_def)
  have T_lt: "\<forall>t \<in> set T. fst t < sz"
    unfolding T_def by (auto dest: set_takeWhileD)
  have U_ge: "\<forall>u \<in> set U. sz \<le> fst u"
    unfolding U_def using srt by (rule takeWhile_less_sorted)
  have srtT: "sorted (map fst T)" and srtU: "sorted (map fst U)"
    using srt m by (simp_all add: sorted_append)
  have win: "\<forall>x \<in> set (free a). in_window_floor a sz x \<longleftrightarrow> lo \<le> fst x \<and> fst x \<le> hi"
  proof
    fix x assume "x \<in> set (free a)"
    then have k: "recorded a x = fst x" using key by simp
    have "unat (sz * match_range a) = unat sz * unat (match_range a)"
      using nov by (simp add: unat_mult_lem [THEN iffD1])
    then show "in_window_floor a sz x \<longleftrightarrow> lo \<le> fst x \<and> fst x \<le> hi"
      by (simp add: in_window_floor_def k lo_def hi_def word_le_nat_alt unat_div)
  qed
  have code: "request a sz =
     (if U \<noteq> [] \<and> fst (hd U) \<le> hi then reuse_at a (length T) sz
      else if T \<noteq> [] \<and> lo \<le> fst (last T) then reuse_at a (length T - 1) sz
      else Inr (alloc a sz))"
    unfolding T_def U_def lo_def hi_def
    using srt nz r lo hi by (intro request_cases) (simp_all add: lo_def hi_def)
  have T_above: "\<forall>t \<in> set T. \<not> best_above (in_window_floor a sz) a sz t"
    using T_lt key m by (auto simp: best_above_def)
  have U_below: "\<forall>u \<in> set U. \<not> best_below (in_window_floor a sz) a sz u"
    using U_ge key m by (auto simp: best_below_def)
  show ?thesis
  proof (cases "U \<noteq> [] \<and> fst (hd U) \<le> hi")
    case True
    then obtain x U' where U: "U = x # U'" and xhi: "fst x \<le> hi"
      by (cases U) auto
    have xs: "sz \<le> fst x" using U_ge U by simp
    have xm: "x \<in> set (free a)" by (simp add: m U)
    have xT: "x \<notin> set T" using T_lt xs by auto
    have "\<forall>y \<in> set U'. fst x \<le> fst y" using srtU U by simp
    then have least: "\<forall>y \<in> set (free a). sz \<le> fst y \<longrightarrow> fst x \<le> fst y"
      using T_lt by (auto simp: m U)
    have "best_above (in_window_floor a sz) a sz x"
      unfolding best_above_def using win key xm xs xhi lo least by auto
    then have "find (best_above (in_window_floor a sz) a sz) (free a) = Some x"
      using T_above by (simp add: m U find_append_skip)
    moreover have "remove1 x (free a) = T @ U'"
      using xT by (simp add: m U remove1_append)
    ultimately have spec: "request_spec_floor a sz =
       (slot_id (data a ! snd x),
        a\<lparr>free := T @ U',
          data := (data a)[snd x := (data a ! snd x)\<lparr>max_bytes := max sz (max_bytes (data a ! snd x))\<rparr>]\<rparr>)"
      using r by (simp add: request_spec_floor_def window_search_def take_slot_def recorded_def)
    have "free a ! length T = x" by (simp add: m U)
    moreover have "multimap_erase (length T) (free a) = T @ U'"
      by (simp add: multimap_erase_def m U)
    moreover have "snd x < length (data a)" using ptr xm by simp
    moreover have "length T < length (free a)" by (simp add: m U)
    ultimately have "reuse_at a (length T) sz = Inr (request_spec_floor a sz)"
      by (simp add: reuse_at_def spec Let_def)
    with True code show ?thesis by simp
  next
    case noU: False
    then have U_hi: "\<forall>u \<in> set U. hi < fst u"
    proof (cases U)
      case Nil then show ?thesis by simp
    next
      case (Cons x U')
      with noU have "hi < fst x" by simp
      moreover have "\<forall>y \<in> set U'. fst x \<le> fst y" using srtU Cons by simp
      ultimately show ?thesis using Cons by auto
    qed
    have no_above: "find (best_above (in_window_floor a sz) a sz) (free a) = None"
    proof (rule find_none, rule ballI)
      fix y assume "y \<in> set (free a)"
      then consider "y \<in> set T" | "y \<in> set U" by (auto simp: m)
      then show "\<not> best_above (in_window_floor a sz) a sz y"
      proof cases
        case 1 then show ?thesis using T_above by simp
      next
        case 2
        then have "hi < fst y" using U_hi by simp
        moreover have "y \<in> set (free a)" using 2 by (simp add: m)
        ultimately show ?thesis using win by (auto simp: best_above_def)
      qed
    qed
    show ?thesis
    proof (cases "T \<noteq> [] \<and> lo \<le> fst (last T)")
      case True
      define x where "x = last T"
      have T: "T = butlast T @ [x]" using True by (simp add: x_def)
      have xm: "x \<in> set (free a)" using True by (simp add: m x_def)
      have xs: "fst x < sz" using T_lt True by (simp add: x_def)
      have xlo: "lo \<le> fst x" using True by (simp add: x_def)
      have most: "\<forall>y \<in> set (free a). fst y < sz \<longrightarrow> fst y \<le> fst x"
      proof (intro ballI impI)
        fix y assume "y \<in> set (free a)" "fst y < sz"
        then have "y \<in> set T" using U_ge by (auto simp: m)
        then show "fst y \<le> fst x" unfolding x_def using srtT by (rule sorted_last_max [rotated])
      qed
      have "best_below (in_window_floor a sz) a sz x"
        unfolding best_below_def using win key xm xs xlo hi most by auto
      moreover have "rev (free a) = rev U @ x # rev (butlast T)"
        using T by (metis m rev_append append_assoc append_Cons append_Nil rev_singleton_conv)
      ultimately have "find (best_below (in_window_floor a sz) a sz) (rev (free a)) = Some x"
        using U_below by (simp add: find_append_skip)
      moreover have "distinct T" using dst m by (metis distinct_append distinct_map)
      then have "x \<notin> set (butlast T)"
        using T by (metis distinct_append disjoint_iff list.set_intros(1))
      then have "remove1 x (free a) = butlast T @ U"
        using T by (metis m remove1_append remove1.simps(2) append_assoc append_Cons append_Nil)
      ultimately have spec: "request_spec_floor a sz =
         (slot_id (data a ! snd x),
          a\<lparr>free := butlast T @ U,
            data := (data a)[snd x := (data a ! snd x)\<lparr>max_bytes := max sz (max_bytes (data a ! snd x))\<rparr>]\<rparr>)"
        using r no_above by (simp add: request_spec_floor_def window_search_def take_slot_def recorded_def)
      have "length T - 1 < length T" using True by (cases T) simp_all
      then have len: "length T - 1 < length (free a)" unfolding m by (simp only: length_append trans_less_add1)
      have "free a ! (length T - 1) = x"
        using True by (simp add: m x_def nth_append last_conv_nth)
      moreover have "multimap_erase (length T - 1) (free a) = butlast T @ U"
        using True by (simp add: multimap_erase_def m butlast_conv_take)
      moreover have "snd x < length (data a)" using ptr xm by simp
      ultimately have "reuse_at a (length T - 1) sz = Inr (request_spec_floor a sz)"
        using len by (simp add: reuse_at_def spec Let_def)
      with True noU code show ?thesis by auto
    next
      case noT: False
      have T_lo: "\<forall>t \<in> set T. fst t < lo"
      proof
        fix t assume t: "t \<in> set T"
        then have "fst t \<le> fst (last T)" using srtT by (rule sorted_last_max [rotated])
        moreover have "fst (last T) < lo" using noT t by auto
        ultimately show "fst t < lo" by simp
      qed
      have "find (best_below (in_window_floor a sz) a sz) (rev (free a)) = None"
      proof (rule find_none, rule ballI)
        fix y assume "y \<in> set (rev (free a))"
        then consider "y \<in> set T" | "y \<in> set U" by (auto simp: m)
        then show "\<not> best_below (in_window_floor a sz) a sz y"
        proof cases
          case 1
          then have "fst y < lo" using T_lo by simp
          moreover have "y \<in> set (free a)" using 1 by (simp add: m)
          ultimately show ?thesis using win by (auto simp: best_below_def)
        next
          case 2 then show ?thesis using U_below by simp
        qed
      qed
      then have "request_spec_floor a sz = alloc a sz"
        using r no_above by (simp add: request_spec_floor_def window_search_def)
      with noT noU code show ?thesis by auto
    qed
  qed
qed

subsection \<open>The invariants are kept\<close>

lemma request_shape:
  assumes "request a sz = Inr (bid, a')"
  shows "(sz = 0 \<and> bid = no_buffer \<and> a' = a)
       \<or> (sz \<noteq> 0 \<and> alloc a sz = (bid, a'))
       \<or> (sz \<noteq> 0 \<and> (\<exists>it. reuse_at a it sz = Inr (bid, a')))"
  using assms by (auto simp: request_def Let_def split: if_splits)

lemma reuse_at_shape:
  assumes "reuse_at a it sz = Inr (bid, a')"
  obtains A x B where "free a = A @ x # B" "length A = it" "snd x < length (data a)"
    "bid = slot_id (data a ! snd x)"
    "a' = a\<lparr>free := A @ B,
            data := (data a)[snd x := (data a ! snd x)\<lparr>max_bytes := max sz (max_bytes (data a ! snd x))\<rparr>]\<rparr>"
proof -
  from assms have it: "it < length (free a)" and e: "snd (free a ! it) < length (data a)"
    by (auto simp: reuse_at_def Let_def split: if_splits)
  have "free a = take it (free a) @ free a ! it # drop (Suc it) (free a)"
    using it by (simp add: id_take_nth_drop)
  moreover have "length (take it (free a)) = it" using it by simp
  moreover have "bid = slot_id (data a ! snd (free a ! it))"
    and "a' = a\<lparr>free := take it (free a) @ drop (Suc it) (free a),
            data := (data a)[snd (free a ! it) := (data a ! snd (free a ! it))
               \<lparr>max_bytes := max sz (max_bytes (data a ! snd (free a ! it)))\<rparr>]\<rparr>"
    using assms it e by (auto simp: reuse_at_def Let_def multimap_erase_def)
  ultimately show thesis using e that by blast
qed

lemma consistent_alloc: "consistent a \<Longrightarrow> consistent (snd (alloc a sz))"
  by (auto simp: consistent_def ids_ok_def alloc_def Let_def nth_append less_Suc_eq)

lemma consistent_reuse_at:
  assumes "consistent a" "reuse_at a it sz = Inr (bid, a')"
  shows "consistent a'"
proof -
  from assms(2) obtain A x B where m: "free a = A @ x # B" and x: "snd x < length (data a)"
    and a': "a' = a\<lparr>free := A @ B,
            data := (data a)[snd x := (data a ! snd x)\<lparr>max_bytes := max sz (max_bytes (data a ! snd x))\<rparr>]\<rparr>"
    by (rule reuse_at_shape)
  have srt: "sorted (map fst (A @ x # B))" and dst: "distinct (map snd (A @ x # B))"
    and ent: "\<forall>y \<in> set (A @ x # B). snd y < length (data a) \<and> fst y = max_bytes (data a ! snd y)"
    and ids: "\<forall>e < length (data a). slot_id (data a ! e) = of_nat e"
    using assms(1) unfolding consistent_def ids_ok_def m by blast+
  have "sorted (map fst (A @ B))" using srt by (auto simp: sorted_append)
  moreover have "distinct (map snd (A @ B))" using dst by auto
  moreover have "\<forall>y \<in> set (A @ B). snd x \<noteq> snd y" using dst by (auto simp: image_iff)
  then have "\<forall>y \<in> set (A @ B). snd y < length (data a) \<and>
      fst y = max_bytes ((data a)[snd x := (data a ! snd x)\<lparr>max_bytes := max sz (max_bytes (data a ! snd x))\<rparr>] ! snd y)"
    using ent by auto
  moreover have "\<forall>e < length (data a).
      slot_id ((data a)[snd x := (data a ! snd x)\<lparr>max_bytes := max sz (max_bytes (data a ! snd x))\<rparr>] ! e) = of_nat e"
    using ids x by (auto simp: nth_list_update)
  ultimately show ?thesis by (simp add: consistent_def ids_ok_def a')
qed

lemma consistent_release:
  assumes "consistent a" "release a bid = Inr a'" "bid \<noteq> no_buffer"
      and "unat bid \<notin> snd ` set (free a)"
  shows "consistent a'"
proof -
  define k where "k = max_bytes (data a ! unat bid)"
  define A where "A = takeWhile (\<lambda>x. fst x \<le> k) (free a)"
  define B where "B = dropWhile (\<lambda>x. fst x \<le> k) (free a)"
  from assms(2,3) have valid: "unat bid < length (data a)"
    and a': "a' = a\<lparr>free := A @ (k, unat bid) # B\<rparr>"
    by (auto simp: release_def assertm_def Let_def multimap_insert_def k_def A_def B_def
        split: if_splits)
  have m: "free a = A @ B" by (simp add: A_def B_def)
  have srt: "sorted (map fst (A @ B))" and dst: "distinct (map snd (A @ B))"
    and ent: "\<forall>y \<in> set (A @ B). snd y < length (data a) \<and> fst y = max_bytes (data a ! snd y)"
    and ids: "\<forall>e < length (data a). slot_id (data a ! e) = of_nat e"
    using assms(1) unfolding consistent_def ids_ok_def m by blast+
  have "\<forall>x \<in> set A. fst x \<le> k" unfolding A_def by (auto dest: set_takeWhileD)
  moreover have "\<forall>x \<in> set B. k < fst x"
    unfolding B_def using assms(1) by (intro takeWhile_le_sorted) (simp add: consistent_def)
  ultimately have "sorted (map fst (A @ (k, unat bid) # B))"
    using srt by (auto simp: sorted_append)
  moreover have "distinct (map snd (A @ (k, unat bid) # B))"
    using dst assms(4) by (auto simp: m)
  moreover have "\<forall>y \<in> set (A @ (k, unat bid) # B).
      snd y < length (data a) \<and> fst y = max_bytes (data a ! snd y)"
    using ent valid by (auto simp: k_def)
  ultimately show ?thesis using ids by (simp add: consistent_def ids_ok_def a')
qed

lemma consistent_new: "consistent (new_buffer_assigner r)"
  by (simp add: consistent_def ids_ok_def new_buffer_assigner_def)

lemma unat_of_nat_size_t: "e < 2 ^ 64 \<Longrightarrow> unat (of_nat e :: size_t) = e"
  by (simp add: unat_of_nat)

lemma set_multimap_insert: "set (multimap_insert k v m) = insert (k, v) (set m)"
proof -
  have "set m = set (takeWhile (\<lambda>x. fst x \<le> k) m) \<union> set (dropWhile (\<lambda>x. fst x \<le> k) m)"
    by (metis set_append takeWhile_dropWhile_id)
  then show ?thesis by (auto simp: multimap_insert_def)
qed

lemma tracked_start: "tracked (start r)"
  by (simp add: tracked_def start_def consistent_new) (simp add: new_buffer_assigner_def)

lemma request_length:
  assumes "request a sz = Inr (bid, a')"
  shows "length (data a) \<le> length (data a')" "match_range a' = match_range a"
  using assms
  by (auto simp: request_def reuse_at_def alloc_def Let_def split: if_splits)

lemma release_length:
  assumes "release a bid = Inr a'"
  shows "data a' = data a" "match_range a' = match_range a"
  using assms
  by (auto simp: release_def assertm_def Let_def split: if_splits)

lemma track_length:
  assumes "track u c = Some u'"
  shows "length (data (assigner u)) \<le> length (data (assigner u'))"
    and "match_range (assigner u') = match_range (assigner u)"
  using assms
  by (cases c; auto split: sum.splits if_splits dest: request_length release_length)+

lemma track_calls_length:
  "track_calls u cs = Some u' \<Longrightarrow>
     length (data (assigner u)) \<le> length (data (assigner u')) \<and>
     match_range (assigner u') = match_range (assigner u)"
proof (induction cs arbitrary: u)
  case Nil
  then show ?case by simp
next
  case (Cons c cs)
  then obtain u1 where 1: "track u c = Some u1" and 2: "track_calls u1 cs = Some u'"
    by (auto split: option.splits)
  from track_length [OF 1] Cons.IH [OF 2] show ?case by simp
qed

lemma tracked_request:
  assumes t: "tracked u" and rq: "request (assigner u) sz = Inr (bid, a')"
      and bound: "length (data a') < 2 ^ 64"
  shows "tracked (if bid = no_buffer then u\<lparr>assigner := a'\<rparr>
                else u\<lparr>assigner := a', live := insert bid (live u),
                       released := released u - {bid}, returned := insert bid (returned u)\<rparr>)
       \<and> (sz \<noteq> 0 \<longrightarrow> bid \<noteq> no_buffer \<and> bid \<notin> live u \<and> (bid \<notin> returned u \<or> bid \<in> released u))"
proof -
  define a where "a = assigner u"
  have c: "consistent a" and rel: "released u = (\<lambda>x. of_nat (snd x)) ` set (free a)"
    and dis: "live u \<inter> released u = {}" and ret: "returned u = live u \<union> released u"
    and rng: "\<forall>i \<in> returned u. unat i < length (data a)" and nb: "no_buffer \<notin> returned u"
    using t unfolding tracked_def a_def by blast+
  have L: "length (data a) < 2 ^ 64"
    using request_length(1) [OF rq] bound by (simp add: a_def)
  from rq consider
      (zero) "sz = 0" "bid = no_buffer" "a' = a"
    | (fresh) "sz \<noteq> 0" "alloc a sz = (bid, a')"
    | (reuse) it where "sz \<noteq> 0" "reuse_at a it sz = Inr (bid, a')"
    using request_shape [OF rq] by (auto simp: a_def)
  then show ?thesis
  proof cases
    case zero
    then show ?thesis using t by (simp add: a_def)
  next
    case fresh
    then have bid: "bid = of_nat (length (data a))"
      and a': "a' = a\<lparr>data := data a @ [\<lparr>slot_id = bid, max_bytes = sz\<rparr>]\<rparr>"
      by (auto simp: alloc_def Let_def)
    have L': "Suc (length (data a)) < 2 ^ 64" using bound by (simp add: a')
    have ub: "unat bid = length (data a)"
      using L by (simp add: bid unat_of_nat_size_t)
    have nnb: "bid \<noteq> no_buffer"
    proof
      assume "bid = no_buffer"
      then have "unat bid = 2 ^ 64 - 1"
        by (simp add: no_buffer_def unsigned_minus_1_eq_mask mask_eq_exp_minus_1)
      with ub L' show False by simp
    qed
    have new: "bid \<notin> returned u" using rng ub by auto
    have "consistent a'" using consistent_alloc [OF c, of sz] fresh by simp
    moreover have "free a' = free a" "length (data a') = Suc (length (data a))"
      by (simp_all add: a')
    ultimately show ?thesis
      using nnb new rel dis ret rng nb fresh(1)
      by (auto simp: tracked_def less_Suc_eq ub)
  next
    case reuse
    from reuse(2) obtain A x B where m: "free a = A @ x # B" and x: "snd x < length (data a)"
      and bid: "bid = slot_id (data a ! snd x)"
      and a': "a' = a\<lparr>free := A @ B,
            data := (data a)[snd x := (data a ! snd x)\<lparr>max_bytes := max sz (max_bytes (data a ! snd x))\<rparr>]\<rparr>"
      by (rule reuse_at_shape)
    have bid': "bid = of_nat (snd x)" using c x by (simp add: bid consistent_def ids_ok_def)
    have in_rel: "bid \<in> released u" by (simp add: rel m bid')
    then have nnb: "bid \<noteq> no_buffer" and nl: "bid \<notin> live u"
      using nb ret dis by auto
    have dst: "distinct (map snd (A @ x # B))"
      and ptr: "\<forall>y \<in> set (A @ x # B). snd y < length (data a)"
      using c unfolding consistent_def m by blast+
    have "\<forall>y \<in> set (A @ B). (of_nat (snd y) :: size_t) \<noteq> of_nat (snd x)"
    proof
      fix y assume y: "y \<in> set (A @ B)"
      then have "snd y \<noteq> snd x" using dst by (auto simp: image_iff)
      moreover have "snd y < 2 ^ 64" "snd x < 2 ^ 64"
        using ptr y x L by (auto intro: less_trans)
      ultimately show "(of_nat (snd y) :: size_t) \<noteq> of_nat (snd x)"
        by (metis unat_of_nat_size_t)
    qed
    then have rel': "released u - {bid} = (\<lambda>x. of_nat (snd x)) ` set (A @ B)"
      by (auto simp: rel m bid')
    have "consistent a'" using consistent_reuse_at [OF c reuse(2)] .
    moreover have "free a' = A @ B" "length (data a') = length (data a)"
      by (simp_all add: a')
    ultimately show ?thesis
      using nnb nl in_rel rel' dis ret rng nb reuse(1)
      by (auto simp: tracked_def)
  qed
qed

lemma tracked_release:
  assumes t: "tracked u" and ok: "bid = no_buffer \<or> bid \<in> live u"
      and rl: "release (assigner u) bid = Inr a'"
  shows "tracked (if bid = no_buffer then u\<lparr>assigner := a'\<rparr>
                else u\<lparr>assigner := a', live := live u - {bid},
                       released := insert bid (released u)\<rparr>)"
proof (cases "bid = no_buffer")
  case True
  then have "a' = assigner u" using rl by (simp add: release_def assertm_def)
  then show ?thesis using t True by simp
next
  case False
  define a where "a = assigner u"
  have c: "consistent a" and rel: "released u = (\<lambda>x. of_nat (snd x)) ` set (free a)"
    and dis: "live u \<inter> released u = {}" and ret: "returned u = live u \<union> released u"
    and rng: "\<forall>i \<in> returned u. unat i < length (data a)" and nb: "no_buffer \<notin> returned u"
    using t unfolding tracked_def a_def by blast+
  from False ok have lv: "bid \<in> live u" by simp
  have "unat bid \<notin> snd ` set (free a)"
  proof
    assume "unat bid \<in> snd ` set (free a)"
    then obtain y where "y \<in> set (free a)" "snd y = unat bid" by auto
    then have "bid \<in> released u" by (auto simp: rel image_iff intro!: bexI [of _ y])
    with lv dis show False by auto
  qed
  then have "consistent a'" using consistent_release [OF c _ False] rl by (simp add: a_def)
  moreover have "free a' = multimap_insert (max_bytes (data a ! unat bid)) (unat bid) (free a)"
    and "data a' = data a"
    using rl False by (auto simp: release_def assertm_def Let_def a_def split: if_splits)
  ultimately show ?thesis
    using False lv rel dis ret rng nb
    by (auto simp: tracked_def set_multimap_insert)
qed

lemma tracked_track:
  assumes "tracked u" "track u c = Some u'" "length (data (assigner u')) < 2 ^ 64"
  shows "tracked u'"
proof (cases c)
  case (Request sz)
  with assms(2) obtain bid a' where rq: "request (assigner u) sz = Inr (bid, a')"
    and u': "u' = (if bid = no_buffer then u\<lparr>assigner := a'\<rparr>
                else u\<lparr>assigner := a', live := insert bid (live u),
                       released := released u - {bid}, returned := insert bid (returned u)\<rparr>)"
    by (auto split: sum.splits)
  have "length (data a') < 2 ^ 64" using assms(3) by (auto simp: u' split: if_splits)
  from tracked_request [OF assms(1) rq this] show ?thesis by (simp add: u')
next
  case (Release bid)
  with assms(2) obtain a' where ok: "bid = no_buffer \<or> bid \<in> live u"
    and rl: "release (assigner u) bid = Inr a'"
    and u': "u' = (if bid = no_buffer then u\<lparr>assigner := a'\<rparr>
                else u\<lparr>assigner := a', live := live u - {bid},
                       released := insert bid (released u)\<rparr>)"
    by (auto split: sum.splits if_splits)
  from tracked_release [OF assms(1) ok rl] show ?thesis by (simp add: u')
qed

lemma tracked_track_calls:
  "tracked u \<Longrightarrow> track_calls u cs = Some u' \<Longrightarrow>
     length (data (assigner u')) < 2 ^ 64 \<Longrightarrow> tracked u'"
proof (induction cs arbitrary: u)
  case Nil
  then show ?case by simp
next
  case (Cons c cs)
  then obtain u1 where 1: "track u c = Some u1" and 2: "track_calls u1 cs = Some u'"
    by (auto split: option.splits)
  have "length (data (assigner u1)) < 2 ^ 64"
    using track_calls_length [OF 2] Cons.prems(3) by simp
  with Cons.prems(1) 1 have "tracked u1" by (rule tracked_track)
  then show ?case using 2 Cons.prems(3) by (rule Cons.IH)
qed

lemma reuse_at_data:
  assumes "reuse_at a it sz = Inr (bid, a')"
  obtains e where "e < length (data a)" "bid = slot_id (data a ! e)"
    "data a' = (data a)[e := (data a ! e)\<lparr>max_bytes := max sz (max_bytes (data a ! e))\<rparr>]"
proof -
  from assms have "snd (free a ! it) < length (data a)"
    and "bid = slot_id (data a ! snd (free a ! it))"
    and "data a' = (data a)[snd (free a ! it) := (data a ! snd (free a ! it))
        \<lparr>max_bytes := max sz (max_bytes (data a ! snd (free a ! it)))\<rparr>]"
    by (auto simp: reuse_at_def Let_def split: if_splits)
  then show thesis by (rule that)
qed

lemma ids_ok_request:
  assumes "ids_ok a" "request a sz = Inr (bid, a')"
  shows "ids_ok a'"
proof -
  from request_shape [OF assms(2)] consider
      "a' = a" | "alloc a sz = (bid, a')" | it where "reuse_at a it sz = Inr (bid, a')"
    by auto
  then show ?thesis
  proof cases
    case 1 with assms(1) show ?thesis by simp
  next
    case 2
    then show ?thesis using assms(1)
      by (auto simp: ids_ok_def alloc_def Let_def nth_append less_Suc_eq)
  next
    case 3
    then obtain e where e: "e < length (data a)"
      and a': "data a' = (data a)[e := (data a ! e)\<lparr>max_bytes := max sz (max_bytes (data a ! e))\<rparr>]"
      by (rule reuse_at_data)
    show ?thesis using assms(1) e
      by (auto simp: ids_ok_def a' nth_list_update)
  qed
qed

lemma ids_ok_run_call:
  assumes "ids_ok a" "run_call a c = Inr a'"
  shows "ids_ok a'"
proof (cases c)
  case (Request sz)
  with assms(2) obtain b where "request a sz = Inr (b, a')"
    by (auto split: sum.splits)
  with assms(1) show ?thesis by (rule ids_ok_request)
next
  case (Release b)
  with assms(2) have "release a b = Inr a'" by simp
  then have "data a' = data a" by (rule release_length(1))
  with assms(1) show ?thesis by (simp add: ids_ok_def)
qed

lemma ids_ok_run_calls: "ids_ok a \<Longrightarrow> run_calls a cs = Inr a' \<Longrightarrow> ids_ok a'"
proof (induction cs arbitrary: a)
  case Nil
  then show ?case by simp
next
  case (Cons c cs)
  then obtain a1 where 1: "run_call a c = Inr a1" and 2: "run_calls a1 cs = Inr a'"
    by (auto split: sum.splits)
  from Cons.prems(1) 1 have "ids_ok a1" by (rule ids_ok_run_call)
  then show ?case using 2 by (rule Cons.IH)
qed

lemma ids_ok_new: "ids_ok (new_buffer_assigner r)"
  by (simp add: ids_ok_def new_buffer_assigner_def)

subsection \<open>Recorded sizes\<close>

lemma query_size_request_mono:
  assumes "request a sz = Inr (b, a')" "query_size a bid = Inr n"
  shows "\<exists>n'. query_size a' bid = Inr n' \<and> n \<le> n'"
proof -
  from request_shape [OF assms(1)] consider
      "a' = a" | "alloc a sz = (b, a')" | it where "reuse_at a it sz = Inr (b, a')"
    by auto
  then show ?thesis
  proof cases
    case 1 with assms(2) show ?thesis by simp
  next
    case 2
    then have "data a' = data a @ [\<lparr>slot_id = b, max_bytes = sz\<rparr>]"
      by (auto simp: alloc_def Let_def)
    then show ?thesis using assms(2)
      by (auto simp: query_size_def assertm_def nth_append split: if_splits)
  next
    case 3
    then obtain e where e: "e < length (data a)"
      and a': "data a' = (data a)[e := (data a ! e)\<lparr>max_bytes := max sz (max_bytes (data a ! e))\<rparr>]"
      by (rule reuse_at_data)
    show ?thesis using assms(2) e
      by (auto simp: query_size_def assertm_def a' nth_list_update split: if_splits)
  qed
qed

lemma query_size_release:
  assumes "release a b = Inr a'"
  shows "query_size a' bid = query_size a bid"
  using release_length(1) [OF assms] by (simp add: query_size_def cong: sum.case_cong)

lemma query_size_run_call_mono:
  assumes "run_call a c = Inr a'" "query_size a bid = Inr n"
  shows "\<exists>n'. query_size a' bid = Inr n' \<and> n \<le> n'"
proof (cases c)
  case (Request sz)
  with assms(1) obtain b where "request a sz = Inr (b, a')"
    by (auto split: sum.splits)
  then show ?thesis using assms(2) by (rule query_size_request_mono)
next
  case (Release b)
  with assms(1) have "release a b = Inr a'" by simp
  then show ?thesis using assms(2) by (simp add: query_size_release)
qed

lemma query_size_run_calls_mono:
  "run_calls a cs = Inr a' \<Longrightarrow> query_size a bid = Inr n \<Longrightarrow>
     \<exists>n'. query_size a' bid = Inr n' \<and> n \<le> n'"
proof (induction cs arbitrary: a n)
  case Nil
  then show ?case by simp
next
  case (Cons c cs)
  then obtain a1 where 1: "run_call a c = Inr a1" and 2: "run_calls a1 cs = Inr a'"
    by (auto split: sum.splits)
  from query_size_run_call_mono [OF 1 Cons.prems(2)]
  obtain n1 where n1: "query_size a1 bid = Inr n1" "n \<le> n1" by auto
  from Cons.IH [OF 2 n1(1)] obtain n' where "query_size a' bid = Inr n'" "n1 \<le> n'" by auto
  with n1(2) show ?case by auto
qed

lemma unat_no_buffer: "unat no_buffer = 2 ^ 64 - 1"
  by (simp add: no_buffer_def unsigned_minus_1_eq_mask mask_eq_exp_minus_1)

lemma request_returns_slot:
  assumes ok: "ids_ok a" and rq: "request a sz = Inr (bid, a')"
      and bound: "length (data a') < 2 ^ 64" and nz: "sz \<noteq> 0"
  shows "bid \<noteq> no_buffer" "unat bid < length (data a')"
    "sz \<le> max_bytes (data a' ! unat bid)"
    "unat bid < length (data a) \<Longrightarrow>
       max_bytes (data a' ! unat bid) = max sz (max_bytes (data a ! unat bid))"
proof -
  have L: "length (data a) < 2 ^ 64"
    using request_length(1) [OF rq] bound by simp
  from request_shape [OF rq] nz consider
      (fresh) "alloc a sz = (bid, a')" | (reuse) it where "reuse_at a it sz = Inr (bid, a')"
    by auto
  then have "bid \<noteq> no_buffer \<and> unat bid < length (data a') \<and>
    sz \<le> max_bytes (data a' ! unat bid) \<and>
    (unat bid < length (data a) \<longrightarrow>
       max_bytes (data a' ! unat bid) = max sz (max_bytes (data a ! unat bid)))"
  proof cases
    case fresh
    then have bid: "bid = of_nat (length (data a))"
      and a': "data a' = data a @ [\<lparr>slot_id = bid, max_bytes = sz\<rparr>]"
      by (auto simp: alloc_def Let_def)
    have ub: "unat bid = length (data a)"
      using L by (simp add: bid unat_of_nat_size_t)
    have "unat bid \<noteq> 2 ^ 64 - 1" using bound by (simp add: ub a')
    then have "bid \<noteq> no_buffer" using unat_no_buffer by auto
    then show ?thesis by (simp add: ub a')
  next
    case reuse
    then obtain e where e: "e < length (data a)"
      and bid: "bid = slot_id (data a ! e)"
      and a': "data a' = (data a)[e := (data a ! e)\<lparr>max_bytes := max sz (max_bytes (data a ! e))\<rparr>]"
      by (rule reuse_at_data)
    have "bid = of_nat e" using ok e by (simp add: bid ids_ok_def)
    then have ub: "unat bid = e"
      using e L by (simp add: unat_of_nat_size_t)
    have "unat bid \<noteq> 2 ^ 64 - 1" using e L by (simp add: ub)
    then have "bid \<noteq> no_buffer" using unat_no_buffer by auto
    then show ?thesis using e by (simp add: ub a')
  qed
  then show "bid \<noteq> no_buffer" "unat bid < length (data a')"
    "sz \<le> max_bytes (data a' ! unat bid)"
    "unat bid < length (data a) \<Longrightarrow>
       max_bytes (data a' ! unat bid) = max sz (max_bytes (data a ! unat bid))"
    by simp_all
qed

subsection \<open>When the specification allocates\<close>

lemma take_slot_not_alloc: "take_slot a x sz \<noteq> alloc a sz"
proof
  assume "take_slot a x sz = alloc a sz"
  then have "length (data (snd (take_slot a x sz))) = length (data (snd (alloc a sz)))"
    by simp
  then show False by (simp add: take_slot_def alloc_def Let_def)
qed

lemma ex_best_above:
  assumes "y \<in> set (free a)" "W y" "sz \<le> recorded a y"
  shows "\<exists>x \<in> set (free a). best_above W a sz x"
proof -
  define S where "S = {x \<in> set (free a). W x \<and> sz \<le> recorded a x}"
  have "y \<in> S" using assms by (simp add: S_def)
  then have ne: "recorded a ` S \<noteq> {}" by blast
  have fin: "finite (recorded a ` S)" by (simp add: S_def)
  from Min_in [OF fin ne] obtain x where x: "x \<in> S" "recorded a x = Min (recorded a ` S)"
    by auto
  have "\<forall>z \<in> S. recorded a x \<le> recorded a z"
    using fin x(2) by simp
  then have "best_above W a sz x" using x(1) by (auto simp: best_above_def S_def)
  then show ?thesis using x(1) by (auto simp: S_def)
qed

lemma ex_best_below:
  assumes "y \<in> set (free a)" "W y" "recorded a y < sz"
  shows "\<exists>x \<in> set (free a). best_below W a sz x"
proof -
  define S where "S = {x \<in> set (free a). W x \<and> recorded a x < sz}"
  have "y \<in> S" using assms by (simp add: S_def)
  then have ne: "recorded a ` S \<noteq> {}" by blast
  have fin: "finite (recorded a ` S)" by (simp add: S_def)
  from Max_in [OF fin ne] obtain x where x: "x \<in> S" "recorded a x = Max (recorded a ` S)"
    by auto
  have "\<forall>z \<in> S. recorded a z \<le> recorded a x"
    using fin x(2) by simp
  then have "best_below W a sz x" using x(1) by (auto simp: best_below_def S_def)
  then show ?thesis using x(1) by (auto simp: S_def)
qed

lemma window_search_fresh_iff:
  assumes "match_range a \<noteq> 0"
  shows "(window_search W a sz = alloc a sz) = (\<forall>x \<in> set (free a). \<not> W x)"
proof
  assume fresh: "window_search W a sz = alloc a sz"
  have above: "find (best_above W a sz) (free a) = None"
    using fresh assms take_slot_not_alloc [of a _ sz]
    by (auto simp: window_search_def split: option.splits)
  then have below: "find (best_below W a sz) (rev (free a)) = None"
    using fresh assms take_slot_not_alloc [of a _ sz]
    by (auto simp: window_search_def split: option.splits)
  show "\<forall>x \<in> set (free a). \<not> W x"
  proof (intro ballI notI)
    fix y assume y: "y \<in> set (free a)" "W y"
    show False
    proof (cases "sz \<le> recorded a y")
      case True
      from ex_best_above [where W = W, OF y True] above show False
        by (auto simp: find_None_iff)
    next
      case False
      then have "recorded a y < sz" by simp
      from ex_best_below [where W = W, OF y this] below show False
        by (auto simp: find_None_iff)
    qed
  qed
next
  assume none: "\<forall>x \<in> set (free a). \<not> W x"
  then have "find (best_above W a sz) (free a) = None"
    and "find (best_below W a sz) (rev (free a)) = None"
    by (auto simp: find_None_iff best_above_def best_below_def)
  then show "window_search W a sz = alloc a sz"
    by (simp add: window_search_def)
qed

subsection \<open>The two windows\<close>

text \<open>Rounding the quotient down only widens the window of the specification.\<close>

lemma in_window_floor_wider:
  assumes "match_range a \<noteq> 0" "in_window a sz x"
  shows "in_window_floor a sz x"
proof -
  define S where "S = unat sz"
  define K where "K = unat (recorded a x)"
  define R where "R = unat (match_range a)"
  have pos: "0 < R"
    using assms(1) by (simp add: R_def unat_gt_0)
  have lo: "real S / real R \<le> real K" and up: "real K \<le> real S * real R"
    using assms(2) unfolding in_window_def S_def K_def R_def by blast+
  from lo pos have "real S \<le> real K * real R"
    by (simp add: pos_divide_le_eq)
  then have "S \<le> K * R"
    by (metis of_nat_le_iff of_nat_mult)
  then have "S div R \<le> K * R div R"
    by (rule div_le_mono)
  then have "S div R \<le> K"
    using pos by simp
  moreover have "K \<le> S * R"
    using up by (metis of_nat_le_iff of_nat_mult)
  ultimately show ?thesis
    by (simp add: in_window_floor_def S_def K_def R_def)
qed

lemma tracked_reachable:
  assumes "track_calls (start r) cs = Some u" "length (data (assigner u)) < 2 ^ 64"
  shows "tracked u" "match_range (assigner u) = r"
proof -
  show "tracked u"
    using tracked_start assms by (rule tracked_track_calls)
  show "match_range (assigner u) = r"
    using track_calls_length [OF assms(1)] by (simp add: start_def new_buffer_assigner_def)
qed

lemmas eval_defs = request_def release_def query_size_def alloc_def reuse_at_def
  lower_bound_def upper_bound_def multimap_insert_def multimap_erase_def assertm_def
  new_buffer_assigner_def no_buffer_def start_def Let_def

section \<open>Theorems\<close>

text \<open>
  C1 (as amended). Let the assigner have been reached from a fresh one with match range
  \<open>r\<close> by \<^verbatim>\<open>request\<close> and \<^verbatim>\<open>release\<close> calls that release only ids that are held (or the
  "no buffer" id), let it hold fewer than \<open>2^64\<close> slots, and let \<open>sz > 0\<close> with
  \<open>sz * r\<close> not overflowing \<^verbatim>\<open>size_t\<close>. Then \<^verbatim>\<open>request(sz)\<close> does what the specification
  says for the window \<open>[\<lfloor>sz / r\<rfloor>, sz * r]\<close>, whose lower bound is the quotient rounded
  down: with \<open>r = 0\<close> it allocates a fresh slot; otherwise it reuses a released slot
  whose recorded size is in that window, the smallest one that is not smaller than
  \<open>sz\<close> if there is one, else the largest one that is smaller than \<open>sz\<close>; and it
  allocates a fresh slot exactly when \<open>r = 0\<close> or no released slot is in that window.
\<close>

theorem request_window_search:
  assumes "track_calls (start r) cs = Some u"
      and "length (data (assigner u)) < 2 ^ 64"
      and "sz \<noteq> 0"
      and "unat sz * unat r < 2 ^ 64"
  shows "request (assigner u) sz = Inr (request_spec_floor (assigner u) sz)
       \<and> (request_spec_floor (assigner u) sz = alloc (assigner u) sz)
         = (r = 0 \<or> (\<forall>x \<in> set (free (assigner u)). \<not> in_window_floor (assigner u) sz x))"
proof -
  have c: "consistent (assigner u)" and r: "match_range (assigner u) = r"
    using tracked_reachable [OF assms(1,2)] by (simp_all add: tracked_def)
  show ?thesis
  proof (cases "r = 0")
    case True
    then show ?thesis
      using r assms(3) by (simp add: request_def request_spec_floor_def window_search_def)
  next
    case False
    then have "request (assigner u) sz = Inr (request_spec_floor (assigner u) sz)"
      using c assms(3,4) r by (intro request_refines) simp_all
    moreover have "(request_spec_floor (assigner u) sz = alloc (assigner u) sz)
         = (\<forall>x \<in> set (free (assigner u)). \<not> in_window_floor (assigner u) sz x)"
      unfolding request_spec_floor_def
      using False r by (intro window_search_fresh_iff) simp
    ultimately show ?thesis using False by simp
  qed
qed

theorem request_window_search_witness:
  "track_calls (start 16)
      [Request 100, Request 200, Request 50, Release 0, Release 1, Release 2]
     = Some \<lparr>assigner = \<lparr>match_range = 16, free = [(50, 2), (100, 0), (200, 1)],
                data = [\<lparr>slot_id = 0, max_bytes = 100\<rparr>, \<lparr>slot_id = 1, max_bytes = 200\<rparr>,
                        \<lparr>slot_id = 2, max_bytes = 50\<rparr>]\<rparr>,
             live = {}, released = {0, 1, 2}, returned = {0, 1, 2}\<rparr>
   \<and> unat (120 :: size_t) * unat (16 :: size_t) < 2 ^ 64
   \<and> request \<lparr>match_range = 16, free = [(50, 2), (100, 0), (200, 1)],
                data = [\<lparr>slot_id = 0, max_bytes = 100\<rparr>, \<lparr>slot_id = 1, max_bytes = 200\<rparr>,
                        \<lparr>slot_id = 2, max_bytes = 50\<rparr>]\<rparr> 120
     = Inr (1, \<lparr>match_range = 16, free = [(50, 2), (100, 0)],
                data = [\<lparr>slot_id = 0, max_bytes = 100\<rparr>, \<lparr>slot_id = 1, max_bytes = 200\<rparr>,
                        \<lparr>slot_id = 2, max_bytes = 50\<rparr>]\<rparr>)
   \<and> unat (3000 :: size_t) * unat (16 :: size_t) < 2 ^ 64
   \<and> request \<lparr>match_range = 16, free = [(50, 2), (100, 0), (200, 1)],
                data = [\<lparr>slot_id = 0, max_bytes = 100\<rparr>, \<lparr>slot_id = 1, max_bytes = 200\<rparr>,
                        \<lparr>slot_id = 2, max_bytes = 50\<rparr>]\<rparr> 3000
     = Inr (1, \<lparr>match_range = 16, free = [(50, 2), (100, 0)],
                data = [\<lparr>slot_id = 0, max_bytes = 100\<rparr>, \<lparr>slot_id = 1, max_bytes = 3000\<rparr>,
                        \<lparr>slot_id = 2, max_bytes = 50\<rparr>]\<rparr>)"
proof -
  let ?cs = "[Request 100, Request 200, Request 50, Release 0, Release 1, Release 2]"
  let ?a = "\<lparr>match_range = 16, free = [(50, 2), (100, 0), (200, 1)],
                data = [\<lparr>slot_id = 0, max_bytes = 100\<rparr>, \<lparr>slot_id = 1, max_bytes = 200\<rparr>,
                        \<lparr>slot_id = 2, max_bytes = 50\<rparr>]\<rparr>"
  let ?u = "\<lparr>assigner = ?a, live = {}, released = {0, 1, 2}, returned = {0, 1, 2}\<rparr>"
  have run: "track_calls (start 16) ?cs = Some ?u"
    by (auto simp: eval_defs)
  have len: "length (data (assigner ?u)) < 2 ^ 64"
    by simp
  have up: "request_spec_floor ?a 120
     = (1, \<lparr>match_range = 16, free = [(50, 2), (100, 0)],
                data = [\<lparr>slot_id = 0, max_bytes = 100\<rparr>, \<lparr>slot_id = 1, max_bytes = 200\<rparr>,
                        \<lparr>slot_id = 2, max_bytes = 50\<rparr>]\<rparr>)"
    by (simp add: request_spec_floor_def window_search_def take_slot_def best_above_def
        in_window_floor_def recorded_def)
  have down: "request_spec_floor ?a 3000
     = (1, \<lparr>match_range = 16, free = [(50, 2), (100, 0)],
                data = [\<lparr>slot_id = 0, max_bytes = 100\<rparr>, \<lparr>slot_id = 1, max_bytes = 3000\<rparr>,
                        \<lparr>slot_id = 2, max_bytes = 50\<rparr>]\<rparr>)"
    by (simp add: request_spec_floor_def window_search_def take_slot_def best_above_def
        best_below_def in_window_floor_def recorded_def)
  have n1: "(120 :: size_t) \<noteq> 0" and o1: "unat (120 :: size_t) * unat (16 :: size_t) < 2 ^ 64"
    and n2: "(3000 :: size_t) \<noteq> 0" and o2: "unat (3000 :: size_t) * unat (16 :: size_t) < 2 ^ 64"
    by simp_all
  show ?thesis
    using run o1 o2 up down
      request_window_search [OF run len n1 o1] request_window_search [OF run len n2 o2]
    by simp
qed

text \<open>
  The claim as the specification words it, with the window \<open>[sz / r, sz * r]\<close> and for
  every state, fails at three inputs with match range 16.

  After \<^verbatim>\<open>request(100)\<close>, \<^verbatim>\<open>release(0)\<close>, \<^verbatim>\<open>release(0)\<close> and \<^verbatim>\<open>request(1000)\<close> the free list
  still holds slot 0 under the key 100, while its recorded size is 1000. A request
  of 10 bytes has the window \<open>[0.625, 160]\<close>, which does not contain 1000, so the
  specification allocates the fresh slot 1; the code finds the key 100 and returns
  slot 0.

  With one released slot of size 7, a request of \<open>2^60\<close> bytes has no slot in its
  window (7 is below \<open>2^60 / 16\<close>), so the specification allocates the fresh slot 1.
  In the code \<open>2^60 * 16\<close> wraps to 0, \<^verbatim>\<open>end\<close> is the first entry, \<^verbatim>\<open>mid\<close> is
  \<^verbatim>\<open>free_.end()\<close>, the first loop is entered because \<^verbatim>\<open>mid != end\<close>, and its body reads
  through \<^verbatim>\<open>free_.end()\<close>.

  With one released slot of size 6, a request of 100 bytes has the window
  \<open>[6.25, 1600]\<close>, which does not contain 6, so the specification allocates the
  fresh slot 1. In the code \<^verbatim>\<open>size / match_range_\<close> is the integer 6, \<^verbatim>\<open>begin\<close> is the entry
  of size 6, and the second loop returns slot 0.
\<close>

theorem request_window_counterexample:
  "run_calls (new_buffer_assigner 16) [Request 100, Release 0, Release 0, Request 1000]
     = Inr \<lparr>match_range = 16, free = [(100, 0)], data = [\<lparr>slot_id = 0, max_bytes = 1000\<rparr>]\<rparr>
   \<and> \<not> in_window \<lparr>match_range = 16, free = [(100, 0)], data = [\<lparr>slot_id = 0, max_bytes = 1000\<rparr>]\<rparr>
         10 (100, 0)
   \<and> request_spec \<lparr>match_range = 16, free = [(100, 0)], data = [\<lparr>slot_id = 0, max_bytes = 1000\<rparr>]\<rparr> 10
     = (1, \<lparr>match_range = 16, free = [(100, 0)],
            data = [\<lparr>slot_id = 0, max_bytes = 1000\<rparr>, \<lparr>slot_id = 1, max_bytes = 10\<rparr>]\<rparr>)
   \<and> request \<lparr>match_range = 16, free = [(100, 0)], data = [\<lparr>slot_id = 0, max_bytes = 1000\<rparr>]\<rparr> 10
     = Inr (0, \<lparr>match_range = 16, free = [], data = [\<lparr>slot_id = 0, max_bytes = 1000\<rparr>]\<rparr>)
   \<and> track_calls (start 16) [Request 7, Release 0]
     = Some \<lparr>assigner = \<lparr>match_range = 16, free = [(7, 0)], data = [\<lparr>slot_id = 0, max_bytes = 7\<rparr>]\<rparr>,
             live = {}, released = {0}, returned = {0}\<rparr>
   \<and> \<not> in_window \<lparr>match_range = 16, free = [(7, 0)], data = [\<lparr>slot_id = 0, max_bytes = 7\<rparr>]\<rparr>
         (2 ^ 60) (7, 0)
   \<and> request_spec \<lparr>match_range = 16, free = [(7, 0)], data = [\<lparr>slot_id = 0, max_bytes = 7\<rparr>]\<rparr> (2 ^ 60)
     = (1, \<lparr>match_range = 16, free = [(7, 0)],
            data = [\<lparr>slot_id = 0, max_bytes = 7\<rparr>, \<lparr>slot_id = 1, max_bytes = 2 ^ 60\<rparr>]\<rparr>)
   \<and> request \<lparr>match_range = 16, free = [(7, 0)], data = [\<lparr>slot_id = 0, max_bytes = 7\<rparr>]\<rparr> (2 ^ 60)
     = Inl Undefined_behaviour
   \<and> track_calls (start 16) [Request 6, Release 0]
     = Some \<lparr>assigner = \<lparr>match_range = 16, free = [(6, 0)], data = [\<lparr>slot_id = 0, max_bytes = 6\<rparr>]\<rparr>,
             live = {}, released = {0}, returned = {0}\<rparr>
   \<and> unat (100 :: size_t) * unat (16 :: size_t) < 2 ^ 64
   \<and> \<not> in_window \<lparr>match_range = 16, free = [(6, 0)], data = [\<lparr>slot_id = 0, max_bytes = 6\<rparr>]\<rparr>
         100 (6, 0)
   \<and> request_spec \<lparr>match_range = 16, free = [(6, 0)], data = [\<lparr>slot_id = 0, max_bytes = 6\<rparr>]\<rparr> 100
     = (1, \<lparr>match_range = 16, free = [(6, 0)],
            data = [\<lparr>slot_id = 0, max_bytes = 6\<rparr>, \<lparr>slot_id = 1, max_bytes = 100\<rparr>]\<rparr>)
   \<and> request \<lparr>match_range = 16, free = [(6, 0)], data = [\<lparr>slot_id = 0, max_bytes = 6\<rparr>]\<rparr> 100
     = Inr (0, \<lparr>match_range = 16, free = [], data = [\<lparr>slot_id = 0, max_bytes = 100\<rparr>]\<rparr>)"
  by (simp add: eval_defs request_spec_def window_search_def best_above_def best_below_def
      in_window_def recorded_def)

text \<open>
  C2. On a fresh assigner with match range 16: \<^verbatim>\<open>request(100)\<close> returns id 0; after
  \<^verbatim>\<open>release(0)\<close>, \<^verbatim>\<open>request(90)\<close> returns id 0 again and \<^verbatim>\<open>query_size(0)\<close> is 100; then
  \<^verbatim>\<open>request(5000)\<close> returns the new id 1, and the next fresh allocation returns id 2.
  In any state \<^verbatim>\<open>alloc\<close> returns the number of slots allocated so far and appends one
  slot with that id, so fresh ids are 0, 1, 2, ... in allocation order.
\<close>

theorem scenario_match_range_16:
  "request (new_buffer_assigner 16) 100
     = Inr (0, \<lparr>match_range = 16, free = [], data = [\<lparr>slot_id = 0, max_bytes = 100\<rparr>]\<rparr>)
   \<and> release \<lparr>match_range = 16, free = [], data = [\<lparr>slot_id = 0, max_bytes = 100\<rparr>]\<rparr> 0
     = Inr \<lparr>match_range = 16, free = [(100, 0)], data = [\<lparr>slot_id = 0, max_bytes = 100\<rparr>]\<rparr>
   \<and> request \<lparr>match_range = 16, free = [(100, 0)], data = [\<lparr>slot_id = 0, max_bytes = 100\<rparr>]\<rparr> 90
     = Inr (0, \<lparr>match_range = 16, free = [], data = [\<lparr>slot_id = 0, max_bytes = 100\<rparr>]\<rparr>)
   \<and> query_size \<lparr>match_range = 16, free = [], data = [\<lparr>slot_id = 0, max_bytes = 100\<rparr>]\<rparr> 0
     = Inr 100
   \<and> request \<lparr>match_range = 16, free = [], data = [\<lparr>slot_id = 0, max_bytes = 100\<rparr>]\<rparr> 5000
     = Inr (1, \<lparr>match_range = 16, free = [],
                data = [\<lparr>slot_id = 0, max_bytes = 100\<rparr>, \<lparr>slot_id = 1, max_bytes = 5000\<rparr>]\<rparr>)
   \<and> request \<lparr>match_range = 16, free = [],
                data = [\<lparr>slot_id = 0, max_bytes = 100\<rparr>, \<lparr>slot_id = 1, max_bytes = 5000\<rparr>]\<rparr> 1
     = Inr (2, \<lparr>match_range = 16, free = [],
                data = [\<lparr>slot_id = 0, max_bytes = 100\<rparr>, \<lparr>slot_id = 1, max_bytes = 5000\<rparr>,
                        \<lparr>slot_id = 2, max_bytes = 1\<rparr>]\<rparr>)
   \<and> fst (alloc a sz) = of_nat (length (data a))
   \<and> data (snd (alloc a sz))
     = data a @ [\<lparr>slot_id = of_nat (length (data a)), max_bytes = sz\<rparr>]"
  by (simp add: request_def release_def query_size_def alloc_def reuse_at_def
      lower_bound_def upper_bound_def multimap_insert_def multimap_erase_def assertm_def
      new_buffer_assigner_def no_buffer_def Let_def)

text \<open>
  C3. Start from a fresh assigner (any match range) and run calls in which every
  release passes an id that is held (or the "no buffer" id). When a further request
  returns an id other than "no buffer", no live request holds that id, and the id
  either was never returned before or is one that has been released. (The number of
  slots after the request is below \<open>2^64\<close>, as it is for every \<^verbatim>\<open>std::vector\<close>.)
\<close>

theorem no_shared_live_id:
  assumes "track_calls (start r) cs = Some u"
      and "request (assigner u) sz = Inr (bid, a')"
      and "bid \<noteq> no_buffer"
      and "length (data a') < 2 ^ 64"
  shows "bid \<notin> live u \<and> (bid \<notin> returned u \<or> bid \<in> released u)"
proof -
  have "length (data (assigner u)) < 2 ^ 64"
    using request_length(1) [OF assms(2)] assms(4) by simp
  with assms(1) have "tracked u" by (rule tracked_reachable(1))
  from tracked_request [OF this assms(2,4)] have
    "sz \<noteq> 0 \<longrightarrow> bid \<noteq> no_buffer \<and> bid \<notin> live u \<and> (bid \<notin> returned u \<or> bid \<in> released u)"
    by simp
  moreover have "sz \<noteq> 0"
    using assms(2,3) by (auto simp: request_def)
  ultimately show ?thesis by simp
qed

theorem no_shared_live_id_witness:
  "track_calls (start 16) [Request 100, Request 200, Release 0]
     = Some \<lparr>assigner = \<lparr>match_range = 16, free = [(100, 0)],
                data = [\<lparr>slot_id = 0, max_bytes = 100\<rparr>, \<lparr>slot_id = 1, max_bytes = 200\<rparr>]\<rparr>,
             live = {1}, released = {0}, returned = {0, 1}\<rparr>
   \<and> request \<lparr>match_range = 16, free = [(100, 0)],
                data = [\<lparr>slot_id = 0, max_bytes = 100\<rparr>, \<lparr>slot_id = 1, max_bytes = 200\<rparr>]\<rparr> 90
     = Inr (0, \<lparr>match_range = 16, free = [],
                data = [\<lparr>slot_id = 0, max_bytes = 100\<rparr>, \<lparr>slot_id = 1, max_bytes = 200\<rparr>]\<rparr>)
   \<and> (0 :: size_t) \<noteq> no_buffer
   \<and> (0 :: size_t) \<notin> {1} \<and> (0 :: size_t) \<in> {0}"
proof -
  let ?a = "\<lparr>match_range = 16, free = [(100, 0)],
                data = [\<lparr>slot_id = 0, max_bytes = 100\<rparr>, \<lparr>slot_id = 1, max_bytes = 200\<rparr>]\<rparr>"
  let ?a' = "\<lparr>match_range = 16, free = [],
                data = [\<lparr>slot_id = 0, max_bytes = 100\<rparr>, \<lparr>slot_id = 1, max_bytes = 200\<rparr>]\<rparr>"
  let ?u = "\<lparr>assigner = ?a, live = {1}, released = {0}, returned = {0, 1}\<rparr>"
  have run: "track_calls (start 16) [Request 100, Request 200, Release 0] = Some ?u"
    by (auto simp: eval_defs)
  have rq: "request (assigner ?u) 90 = Inr (0, ?a')"
    by (simp add: eval_defs)
  have nb: "(0 :: size_t) \<noteq> no_buffer"
    by (simp add: no_buffer_def)
  have len: "length (data ?a') < 2 ^ 64"
    by simp
  show ?thesis
    using run rq nb no_shared_live_id [OF run rq nb len] by simp
qed

text \<open>
  C4. Over any sequence of \<^verbatim>\<open>request\<close> and \<^verbatim>\<open>release\<close> calls that run without error, from any
  state, \<^verbatim>\<open>query_size(id)\<close> of an id that it accepts does not decrease. And when, in a
  state reached from a fresh assigner, \<^verbatim>\<open>request(sz)\<close> returns an id that
  \<^verbatim>\<open>query_size\<close> already knew with size \<open>n\<close>, its size afterwards is \<open>max sz n\<close>.
\<close>

theorem query_size_non_decreasing:
  "(run_calls a cs = Inr a' \<longrightarrow> query_size a bid = Inr n \<longrightarrow>
      (\<exists>n'. query_size a' bid = Inr n' \<and> n \<le> n'))
   \<and> (run_calls (new_buffer_assigner r) cs0 = Inr a \<longrightarrow> request a sz = Inr (bid, a1) \<longrightarrow>
      length (data a1) < 2 ^ 64 \<longrightarrow> query_size a bid = Inr n \<longrightarrow>
      query_size a1 bid = Inr (max sz n))"
proof (intro conjI impI)
  assume "run_calls a cs = Inr a'" "query_size a bid = Inr n"
  then show "\<exists>n'. query_size a' bid = Inr n' \<and> n \<le> n'"
    by (rule query_size_run_calls_mono)
next
  assume reach: "run_calls (new_buffer_assigner r) cs0 = Inr a"
    and rq: "request a sz = Inr (bid, a1)" and bound: "length (data a1) < 2 ^ 64"
    and q: "query_size a bid = Inr n"
  have ok: "ids_ok a" using ids_ok_new reach by (rule ids_ok_run_calls)
  show "query_size a1 bid = Inr (max sz n)"
  proof (cases "sz = 0")
    case True
    then show ?thesis using rq q by (auto simp: request_def query_size_def assertm_def)
  next
    case False
    note slot = request_returns_slot [OF ok rq bound False]
    from q slot(1) have old: "unat bid < length (data a)" "n = max_bytes (data a ! unat bid)"
      by (auto simp: query_size_def assertm_def split: if_splits)
    from slot(4) [OF old(1)] slot(1,2) old(2) show ?thesis
      by (simp add: query_size_def assertm_def)
  qed
qed

theorem query_size_non_decreasing_witness:
  "run_calls \<lparr>match_range = 16, free = [(100, 0)], data = [\<lparr>slot_id = 0, max_bytes = 100\<rparr>]\<rparr>
      [Request 150, Release 0, Request 20]
     = Inr \<lparr>match_range = 16, free = [], data = [\<lparr>slot_id = 0, max_bytes = 150\<rparr>]\<rparr>
   \<and> query_size \<lparr>match_range = 16, free = [(100, 0)], data = [\<lparr>slot_id = 0, max_bytes = 100\<rparr>]\<rparr> 0
     = Inr 100
   \<and> (\<exists>n'. query_size \<lparr>match_range = 16, free = [], data = [\<lparr>slot_id = 0, max_bytes = 150\<rparr>]\<rparr> 0
           = Inr n' \<and> 100 \<le> n')
   \<and> run_calls (new_buffer_assigner 16) [Request 100, Release 0]
     = Inr \<lparr>match_range = 16, free = [(100, 0)], data = [\<lparr>slot_id = 0, max_bytes = 100\<rparr>]\<rparr>
   \<and> request \<lparr>match_range = 16, free = [(100, 0)], data = [\<lparr>slot_id = 0, max_bytes = 100\<rparr>]\<rparr> 150
     = Inr (0, \<lparr>match_range = 16, free = [], data = [\<lparr>slot_id = 0, max_bytes = 150\<rparr>]\<rparr>)
   \<and> query_size \<lparr>match_range = 16, free = [], data = [\<lparr>slot_id = 0, max_bytes = 150\<rparr>]\<rparr> 0
     = Inr (max 150 100)"
proof -
  let ?a = "\<lparr>match_range = 16, free = [(100, 0)], data = [\<lparr>slot_id = 0, max_bytes = 100\<rparr>]\<rparr>"
  let ?a' = "\<lparr>match_range = 16, free = [], data = [\<lparr>slot_id = 0, max_bytes = 150\<rparr>]\<rparr>"
  have run: "run_calls ?a [Request 150, Release 0, Request 20] = Inr ?a'"
    by (simp add: eval_defs)
  have q: "query_size ?a 0 = Inr 100"
    by (simp add: eval_defs)
  have reach: "run_calls (new_buffer_assigner 16) [Request 100, Release 0] = Inr ?a"
    by (simp add: eval_defs)
  have rq: "request ?a 150 = Inr (0, ?a')"
    by (simp add: eval_defs)
  have len: "length (data ?a') < 2 ^ 64"
    by simp
  show ?thesis
    using run q reach rq len
      query_size_non_decreasing
        [of ?a "[Request 150, Release 0, Request 20]" ?a' 0 100 16 "[Request 100, Release 0]" 150 ?a']
    by simp
qed

text \<open>
  C5. \<^verbatim>\<open>request(0)\<close> returns the "no buffer" id and leaves the assigner as it was (no
  slot is allocated, the free list is untouched); \<^verbatim>\<open>release\<close> of the "no buffer" id
  leaves the free list and the list of allocated slots unchanged.
\<close>

theorem request_zero_release_no_buffer:
  "request a 0 = Inr (no_buffer, a) \<and> release a no_buffer = Inr a"
  by (simp add: request_def release_def assertm_def)

text \<open>
  C6. \<^verbatim>\<open>release(id)\<close> of an allocated slot inserts the slot into the free list under the
  key that \<^verbatim>\<open>query_size(id)\<close> returns, the recorded maximum size of the slot. When the
  slot was obtained by \<^verbatim>\<open>request(sz)\<close>, that key is at least \<open>sz\<close>; after
  \<^verbatim>\<open>request(100)\<close>, \<^verbatim>\<open>release(0)\<close> and \<^verbatim>\<open>request(90)\<close> the key is 100.
\<close>

theorem release_keyed_by_current_max:
  assumes "unat bid < length (data a)" and "bid \<noteq> no_buffer"
  shows "query_size a bid = Inr (max_bytes (data a ! unat bid))
       \<and> release a bid
         = Inr (a\<lparr>free := multimap_insert (max_bytes (data a ! unat bid)) (unat bid) (free a)\<rparr>)
       \<and> (max_bytes (data a ! unat bid), unat bid)
         \<in> set (multimap_insert (max_bytes (data a ! unat bid)) (unat bid) (free a))
       \<and> (run_calls (new_buffer_assigner r) cs0 = Inr a0 \<longrightarrow> request a0 sz = Inr (bid, a) \<longrightarrow>
          length (data a) < 2 ^ 64 \<longrightarrow> sz \<le> max_bytes (data a ! unat bid))"
proof (intro conjI impI)
  show "query_size a bid = Inr (max_bytes (data a ! unat bid))"
    using assms by (simp add: query_size_def assertm_def)
  show "release a bid
      = Inr (a\<lparr>free := multimap_insert (max_bytes (data a ! unat bid)) (unat bid) (free a)\<rparr>)"
    using assms by (simp add: release_def assertm_def Let_def)
  show "(max_bytes (data a ! unat bid), unat bid)
      \<in> set (multimap_insert (max_bytes (data a ! unat bid)) (unat bid) (free a))"
    by (simp add: set_multimap_insert)
next
  assume reach: "run_calls (new_buffer_assigner r) cs0 = Inr a0"
    and rq: "request a0 sz = Inr (bid, a)" and bound: "length (data a) < 2 ^ 64"
  have ok: "ids_ok a0" using ids_ok_new reach by (rule ids_ok_run_calls)
  have "sz \<noteq> 0" using rq assms(2) by (auto simp: request_def)
  from request_returns_slot(3) [OF ok rq bound this]
  show "sz \<le> max_bytes (data a ! unat bid)" .
qed

theorem release_keyed_by_current_max_witness:
  "run_calls (new_buffer_assigner 16) [Request 100, Release 0]
     = Inr \<lparr>match_range = 16, free = [(100, 0)], data = [\<lparr>slot_id = 0, max_bytes = 100\<rparr>]\<rparr>
   \<and> request \<lparr>match_range = 16, free = [(100, 0)], data = [\<lparr>slot_id = 0, max_bytes = 100\<rparr>]\<rparr> 90
     = Inr (0, \<lparr>match_range = 16, free = [], data = [\<lparr>slot_id = 0, max_bytes = 100\<rparr>]\<rparr>)
   \<and> (0 :: size_t) \<noteq> no_buffer
   \<and> query_size \<lparr>match_range = 16, free = [], data = [\<lparr>slot_id = 0, max_bytes = 100\<rparr>]\<rparr> 0
     = Inr 100
   \<and> release \<lparr>match_range = 16, free = [], data = [\<lparr>slot_id = 0, max_bytes = 100\<rparr>]\<rparr> 0
     = Inr \<lparr>match_range = 16, free = [(100, 0)], data = [\<lparr>slot_id = 0, max_bytes = 100\<rparr>]\<rparr>
   \<and> (90 :: size_t) \<le> 100"
proof -
  let ?before = "\<lparr>match_range = 16, free = [(100, 0)], data = [\<lparr>slot_id = 0, max_bytes = 100\<rparr>]\<rparr>"
  let ?after = "\<lparr>match_range = 16, free = [], data = [\<lparr>slot_id = 0, max_bytes = 100\<rparr>]\<rparr>"
  have reach: "run_calls (new_buffer_assigner 16) [Request 100, Release 0] = Inr ?before"
    by (simp add: eval_defs)
  have rq: "request ?before 90 = Inr (0, ?after)"
    by (simp add: eval_defs)
  have valid: "unat (0 :: size_t) < length (data ?after)" and nb: "(0 :: size_t) \<noteq> no_buffer"
    by (simp_all add: no_buffer_def)
  note inst = release_keyed_by_current_max [OF valid nb, of 16 "[Request 100, Release 0]" ?before 90]
  have 1: "query_size ?after 0 = Inr 100"
    using inst by simp
  have 2: "release ?after 0 = Inr ?before"
    using inst by (simp add: multimap_insert_def)
  have 3: "(90 :: size_t) \<le> 100"
    using inst reach rq by simp
  show ?thesis
    using reach rq nb 1 2 3 by simp
qed

text \<open>
  C7. \<^verbatim>\<open>release(id)\<close> and \<^verbatim>\<open>query_size(id)\<close> fail the assertion "invalid buffer id"
  exactly when \<open>id\<close> is neither the "no buffer" id nor below the number of allocated
  slots; the "no buffer" id is accepted (\<^verbatim>\<open>release\<close> does nothing, \<^verbatim>\<open>query_size\<close> is 0).
\<close>

theorem invalid_id_asserts:
  "(release a bid = Inl (Assertion_failed ''invalid buffer id''))
     = (\<not> unat bid < length (data a) \<and> bid \<noteq> no_buffer)
   \<and> (query_size a bid = Inl (Assertion_failed ''invalid buffer id''))
     = (\<not> unat bid < length (data a) \<and> bid \<noteq> no_buffer)
   \<and> release a no_buffer = Inr a
   \<and> query_size a no_buffer = Inr 0"
  by (simp add: release_def query_size_def assertm_def Let_def)

theorem invalid_id_asserts_witness:
  "release \<lparr>match_range = 16, free = [], data = [\<lparr>slot_id = 0, max_bytes = 100\<rparr>]\<rparr> 1
     = Inl (Assertion_failed ''invalid buffer id'')
   \<and> query_size \<lparr>match_range = 16, free = [], data = [\<lparr>slot_id = 0, max_bytes = 100\<rparr>]\<rparr> 1
     = Inl (Assertion_failed ''invalid buffer id'')"
  using invalid_id_asserts
    [of "\<lparr>match_range = 16, free = [], data = [\<lparr>slot_id = 0, max_bytes = 100\<rparr>]\<rparr>" 1]
  by (simp add: no_buffer_def)

text \<open>
  C9. For a value with a recorded assignment, \<^verbatim>\<open>get_memory_info\<close> returns the prefix of
  the assigned kind (\<open>persistent_\<close>, \<open>temporary_\<close>, \<open>external_in_\<close> or \<open>external_out_\<close>)
  followed by the decimal digits of the assigned index.
\<close>

theorem get_memory_info_assigned:
  assumes "buffer_assignments p val = Some info"
  shows "fst (get_memory_info p val)
     = (case kind info of
          internal_persistent \<Rightarrow> ''persistent_''
        | internal_temporary \<Rightarrow> ''temporary_''
        | external_input \<Rightarrow> ''external_in_''
        | external_output \<Rightarrow> ''external_out_'') @ to_string (unat (index info))"
  using assms by (cases "kind info") (simp_all add: get_memory_info_def)

theorem get_memory_info_assigned_witness:
  "fst (get_memory_info
      \<lparr>alias_map = Map.empty, reverse_alias_map = Map.empty,
       buffer_assignments = [5 \<mapsto> \<lparr>kind = internal_temporary, index = 12\<rparr>],
       temporary_buffer_ref_count = Map.empty,
       persistent_buffer_assigner = new_buffer_assigner 16,
       temporary_buffer_assigner = new_buffer_assigner 16,
       enable_memory_sharing = True\<rparr> 5) = ''temporary_12''"
proof -
  have digits: "to_string 12 = ''12''"
    by code_simp
  show ?thesis
    using digits get_memory_info_assigned
      [of "\<lparr>alias_map = Map.empty, reverse_alias_map = Map.empty,
         buffer_assignments = [5 \<mapsto> \<lparr>kind = internal_temporary, index = 12\<rparr>],
         temporary_buffer_ref_count = Map.empty,
         persistent_buffer_assigner = new_buffer_assigner 16,
         temporary_buffer_assigner = new_buffer_assigner 16,
         enable_memory_sharing = True\<rparr>" 5 "\<lparr>kind = internal_temporary, index = 12\<rparr>"]
    by simp
qed

text \<open>
  C10. For a value with no recorded assignment, \<^verbatim>\<open>get_memory_info\<close> returns the empty
  string, which is none of the four documented forms, and the planner is unchanged.
\<close>

theorem get_memory_info_unassigned:
  assumes "buffer_assignments p val = None"
  shows "get_memory_info p val = ('''', p)
     \<and> '''' \<notin> {''persistent_'' @ to_string i, ''temporary_'' @ to_string i,
                 ''external_in_'' @ to_string i, ''external_out_'' @ to_string i}"
  using assms by (simp add: get_memory_info_def)

theorem get_memory_info_unassigned_witness:
  "get_memory_info
      \<lparr>alias_map = Map.empty, reverse_alias_map = Map.empty,
       buffer_assignments = [5 \<mapsto> \<lparr>kind = internal_temporary, index = 12\<rparr>],
       temporary_buffer_ref_count = Map.empty,
       persistent_buffer_assigner = new_buffer_assigner 16,
       temporary_buffer_assigner = new_buffer_assigner 16,
       enable_memory_sharing = True\<rparr> 6
   = ('''',
      \<lparr>alias_map = Map.empty, reverse_alias_map = Map.empty,
       buffer_assignments = [5 \<mapsto> \<lparr>kind = internal_temporary, index = 12\<rparr>],
       temporary_buffer_ref_count = Map.empty,
       persistent_buffer_assigner = new_buffer_assigner 16,
       temporary_buffer_assigner = new_buffer_assigner 16,
       enable_memory_sharing = True\<rparr>)"
  using get_memory_info_unassigned
    [of "\<lparr>alias_map = Map.empty, reverse_alias_map = Map.empty,
       buffer_assignments = [5 \<mapsto> \<lparr>kind = internal_temporary, index = 12\<rparr>],
       temporary_buffer_ref_count = Map.empty,
       persistent_buffer_assigner = new_buffer_assigner 16,
       temporary_buffer_assigner = new_buffer_assigner 16,
       enable_memory_sharing = True\<rparr>" 6 0]
  by simp

end
